theory Spec2Isabelle
  imports Complex_Main
begin

section \<open>The hadith pgvector inserter (rag.py)\<close>

text \<open>
  A shallow embedding of \<^verbatim>\<open>HadithPGVectorInserter\<close>. Python integers are \<open>int\<close>,
  strings are \<open>string\<close>, an exception that leaves a function is the \<open>Inl\<close> branch of
  its result. The vector store, the checkpoint file and the clock are the world the
  inserter acts on: every effect is appended to a trace, and what the world answers
  (whether an insertion raises, whether a write or a removal raises) is read from
  the world itself, so that every theorem holds for every behaviour of the store
  and of the file system.
\<close>

datatype error =
    ValueError string
  | ZeroDivisionError
  | ReadError

subsection \<open>Python helpers\<close>

text \<open>
  \<^verbatim>\<open>range(start, stop, step)\<close> for a non-zero step, with the length CPython computes.
\<close>

definition range_len :: "int \<Rightarrow> int \<Rightarrow> int \<Rightarrow> nat" where
  "range_len start stop step =
     (if 0 < step \<and> start < stop then nat ((stop - start - 1) div step + 1)
      else if step < 0 \<and> stop < start then nat ((start - stop - 1) div (- step) + 1)
      else 0)"

definition py_range :: "int \<Rightarrow> int \<Rightarrow> int \<Rightarrow> int list" where
  "py_range start stop step =
     map (\<lambda>j. start + int j * step) [0..<range_len start stop step]"

text \<open>
  \<^verbatim>\<open>xs[i:j]\<close>: a negative bound counts from the end, and both bounds are clamped to
  the list.
\<close>

definition slice_bound :: "nat \<Rightarrow> int \<Rightarrow> nat" where
  "slice_bound n i = (if i < 0 then nat (max 0 (i + int n)) else min (nat i) n)"

definition py_slice :: "'a list \<Rightarrow> int \<Rightarrow> int \<Rightarrow> 'a list" where
  "py_slice xs i j =
     (let lo = slice_bound (length xs) i; hi = slice_bound (length xs) j
      in take (hi - lo) (drop lo xs))"

subsection \<open>Configuration: \<^verbatim>\<open>__init__\<close>\<close>

text \<open>
  The attributes \<^verbatim>\<open>__init__\<close> sets. Each constructor argument defaults to
  \<^verbatim>\<open>None\<close>; the environment is a map from names to strings.
\<close>

record inserter =
  postgres_url :: string
  google_api_key :: string
  collection_name :: string
  max_retries :: int

type_synonym environ = "string \<rightharpoonup> string"

text \<open>\<^verbatim>\<open>x or y\<close> on an optional string: \<^verbatim>\<open>None\<close> and \<^verbatim>\<open>''\<close> are falsy.\<close>

definition str_or :: "string option \<Rightarrow> string option \<Rightarrow> string option" where
  "str_or x y = (case x of Some s \<Rightarrow> if s \<noteq> [] then Some s else y | None \<Rightarrow> y)"

definition getenv :: "environ \<Rightarrow> string \<Rightarrow> string option" where
  "getenv env k = env k"

definition getenv_default :: "environ \<Rightarrow> string \<Rightarrow> string \<Rightarrow> string" where
  "getenv_default env k d = (case env k of Some v \<Rightarrow> v | None \<Rightarrow> d)"

text \<open>
  Lines 37 to 52. The result is the configured inserter and the environment after
  line 52; the two clients built afterwards take their arguments from these
  attributes only. Python's built-in \<^verbatim>\<open>int\<close> on a string is the parameter \<open>to_int\<close>:
  it returns an integer or raises, and nothing else about it is assumed.
\<close>

definition init ::
  "(string \<Rightarrow> error + int) \<Rightarrow> string option \<Rightarrow> string option \<Rightarrow> string option
     \<Rightarrow> int option \<Rightarrow> environ \<Rightarrow> error + (inserter \<times> environ)" where
  "init to_int postgres_url_arg google_api_key_arg collection_name_arg max_retries_arg env =
     (let url = str_or postgres_url_arg (getenv env ''POSTGRES_URL'');
          key = str_or google_api_key_arg (getenv env ''GOOGLE_API_KEY'');
          coll = (case str_or collection_name_arg None of
                    Some s \<Rightarrow> s
                  | None \<Rightarrow> getenv_default env ''COLLECTION_NAME'' ''rag_ahadees'');
          retries = (case max_retries_arg of
                       Some n \<Rightarrow> if n \<noteq> 0 then Inr n
                                  else to_int (getenv_default env ''MAX_RETRIES'' ''3'')
                     | None \<Rightarrow> to_int (getenv_default env ''MAX_RETRIES'' ''3''))
      in case retries of
           Inl e \<Rightarrow> Inl e
         | Inr r \<Rightarrow>
             (case url of
                None \<Rightarrow> Inl (ValueError ''POSTGRES_URL is required'')
              | Some u \<Rightarrow>
                  if u = [] then Inl (ValueError ''POSTGRES_URL is required'')
                  else (case key of
                          None \<Rightarrow> Inl (ValueError ''GOOGLE_API_KEY is required'')
                        | Some g \<Rightarrow>
                            if g = [] then Inl (ValueError ''GOOGLE_API_KEY is required'')
                            else Inr (\<lparr>postgres_url = u, google_api_key = g,
                                       collection_name = coll, max_retries = r\<rparr>,
                                      env(''GOOGLE_API_KEY'' \<mapsto> g)))))"

subsection \<open>Rows and documents\<close>

text \<open>
  A Python value that a row can hold or that \<^verbatim>\<open>row.get\<close> and \<^verbatim>\<open>pd.notna\<close> can return:
  a string, an integer, a float, a boolean, the missing-value marker \<^verbatim>\<open>NaN\<close>,
  \<^verbatim>\<open>None\<close>, or a Series of such values. A row is a pandas Series: its labels with
  their values, in order; nothing keeps a label from occurring twice.
\<close>

datatype pyval =
    StrV string
  | IntV int
  | FloatV rat
  | BoolV bool
  | NaN
  | PyNone
  | SeriesV "pyval list"

type_synonym row = "(string \<times> pyval) list"

text \<open>
  \<^verbatim>\<open>row.get(key, default)\<close>: the default for an absent label, the value for a label
  that occurs once, and the Series of the values for a label that occurs more often.
\<close>

definition lookup :: "row \<Rightarrow> string \<Rightarrow> pyval list" where
  "lookup r k = map snd (filter (\<lambda>entry. fst entry = k) r)"

definition row_get :: "row \<Rightarrow> string \<Rightarrow> pyval \<Rightarrow> pyval" where
  "row_get r k d =
     (case lookup r k of
        [] \<Rightarrow> d
      | [v] \<Rightarrow> v
      | v # v2 # vs \<Rightarrow> SeriesV (v # v2 # vs))"

text \<open>
  \<^verbatim>\<open>pd.notna\<close> answers with a boolean for a scalar and with a Series of booleans, one
  for each element, for a Series.
\<close>

definition isna :: "pyval \<Rightarrow> bool" where
  "isna v = (v = NaN \<or> v = PyNone)"

definition notna :: "pyval \<Rightarrow> pyval" where
  "notna v =
     (case v of
        SeriesV vs \<Rightarrow> SeriesV (map (\<lambda>x. BoolV (\<not> isna x)) vs)
      | _ \<Rightarrow> BoolV (\<not> isna v))"

text \<open>
  The truth value an \<^verbatim>\<open>if\<close> takes of a value. That of a Series raises
  \<^verbatim>\<open>ValueError\<close>: it is ambiguous.
\<close>

fun truth :: "pyval \<Rightarrow> error + bool" where
  "truth (BoolV b) = Inr b"
| "truth (SeriesV vs) = Inl (ValueError ''The truth value of a Series is ambiguous'')"
| "truth (StrV s) = Inr (s \<noteq> [])"
| "truth (IntV n) = Inr (n \<noteq> 0)"
| "truth (FloatV x) = Inr (x \<noteq> 0)"
| "truth NaN = Inr True"
| "truth PyNone = Inr False"

record metadata =
  source :: pyval
  hadith_number :: pyval
  chapter_number :: pyval
  chapter_title :: pyval
  chain_index :: pyval

text \<open>
  The page content is a fixed template with two holes; the document keeps the two
  values that fill them. The dictionary is built entry by entry, and a conditional
  expression takes the truth value of its condition first: when that raises, the
  call ends with the exception. Formatting the template and building the
  \<^verbatim>\<open>Document\<close> from a string and a dictionary do not raise.
\<close>

record document =
  content_ar :: pyval
  content_en :: pyval
  meta :: metadata

definition create_document_from_row :: "row \<Rightarrow> error + document" where
  "create_document_from_row r =
     (let text_ar = row_get r ''text_ar'' (StrV '''');
          text_en = row_get r ''text_en'' (StrV '''');
          src = row_get r ''source'' (StrV ''Unknown'')
      in case truth (notna (row_get r ''hadith_no'' PyNone)) of
           Inl e \<Rightarrow> Inl e
         | Inr has_number \<Rightarrow>
             (case truth (notna (row_get r ''chapter_no'' PyNone)) of
                Inl e \<Rightarrow> Inl e
              | Inr has_chapter \<Rightarrow>
                  Inr \<lparr>content_ar = text_ar, content_en = text_en,
                       meta = \<lparr>source = src,
                                hadith_number =
                                  (if has_number then row_get r ''hadith_no'' (IntV 0)
                                   else IntV 0),
                                chapter_number =
                                  (if has_chapter then row_get r ''chapter_no'' (IntV 0)
                                   else IntV 0),
                                chapter_title = row_get r ''chapter'' (StrV ''''),
                                chain_index = row_get r ''chain_indx'' (StrV '''')\<rparr>\<rparr>))"

text \<open>
  What \<^verbatim>\<open>pd.read_csv\<close> and \<^verbatim>\<open>iterrows\<close> hand over: the column labels of a frame read
  from a file are distinct, and every cell is a scalar.
\<close>

fun scalar :: "pyval \<Rightarrow> bool" where
  "scalar (SeriesV vs) = False"
| "scalar v = True"



subsection \<open>The world: vector store, checkpoint file, clock\<close>

record progress =
  current_batch :: int
  successful_batches :: int
  failed_batches :: int

text \<open>
  The checkpoint file holds a progress record or something \<^verbatim>\<open>json.load\<close> rejects.
  (The time stamp the source adds to the record is not modelled.)
\<close>

datatype file_content = Checkpoint progress | Corrupt

datatype write_outcome = Written | OpenRaises | DumpRaises

text \<open>
  \<open>InsertBatch n b\<close> marks a call \<^verbatim>\<open>_insert_batch_with_retry(b, n)\<close>; the other events
  are effects: a call of \<^verbatim>\<open>add_documents\<close> with whether it returned, \<^verbatim>\<open>time.sleep\<close>,
  the write of \<^verbatim>\<open>_save_progress\<close> with its outcome, and \<^verbatim>\<open>os.remove\<close> with whether
  it returned. An \<open>AddDocuments\<close> event also carries the number its caller logs with
  the call: the batch number in batch mode, the document index in individual mode.
\<close>

datatype 'd event =
    InsertBatch int "'d list"
  | AddDocuments int "'d list" bool
  | Sleep rat
  | SaveProgress progress write_outcome
  | Remove bool

text \<open>
  \<open>add_ok w n\<close> says whether the \<open>n\<close>-th call of \<^verbatim>\<open>add_documents\<close> returns (otherwise
  it raises), \<open>write_outcomes w n\<close> what happens to the \<open>n\<close>-th checkpoint write, and
  \<open>remove_ok w\<close> whether \<^verbatim>\<open>os.remove\<close> returns.
\<close>

record 'd world =
  add_ok :: "nat \<Rightarrow> bool"
  add_calls :: nat
  write_outcomes :: "nat \<Rightarrow> write_outcome"
  write_calls :: nat
  remove_ok :: bool
  progress_file :: "file_content option"
  trace :: "'d event list"

definition emit :: "'d event \<Rightarrow> 'd world \<Rightarrow> 'd world" where
  "emit e w = w\<lparr>trace := trace w @ [e]\<rparr>"

definition add_documents :: "int \<Rightarrow> 'd list \<Rightarrow> 'd world \<Rightarrow> bool \<times> 'd world" where
  "add_documents num batch w =
     (let ok = add_ok w (add_calls w)
      in (ok, emit (AddDocuments num batch ok) (w\<lparr>add_calls := add_calls w + 1\<rparr>)))"

definition sleep :: "rat \<Rightarrow> 'd world \<Rightarrow> 'd world" where
  "sleep t w = emit (Sleep t) w"

subsection \<open>Checkpoints: \<^verbatim>\<open>_save_progress\<close> and \<^verbatim>\<open>_load_progress\<close>\<close>

text \<open>
  A write that raises is caught and logged. When \<^verbatim>\<open>open\<close> raises the file is as
  before; when \<^verbatim>\<open>json.dump\<close> raises the file has been truncated already.
\<close>

definition save_progress :: "int \<Rightarrow> int \<Rightarrow> int \<Rightarrow> 'd world \<Rightarrow> 'd world" where
  "save_progress batch_num successful failed w =
     (let progress_data = \<lparr>current_batch = batch_num, successful_batches = successful,
                           failed_batches = failed\<rparr>;
          outcome = write_outcomes w (write_calls w);
          w1 = emit (SaveProgress progress_data outcome) (w\<lparr>write_calls := write_calls w + 1\<rparr>)
      in case outcome of
           Written \<Rightarrow> w1\<lparr>progress_file := Some (Checkpoint progress_data)\<rparr>
         | OpenRaises \<Rightarrow> w1
         | DumpRaises \<Rightarrow> w1\<lparr>progress_file := Some Corrupt\<rparr>)"


subsection \<open>Retrying one batch: \<^verbatim>\<open>_insert_batch_with_retry\<close>\<close>

text \<open>
  The loop over \<^verbatim>\<open>range(self.max_retries)\<close>. An insertion that raises is caught; the
  loop sleeps and goes on while \<^verbatim>\<open>attempt < self.max_retries - 1\<close>, and returns
  \<^verbatim>\<open>False\<close> otherwise.
\<close>

fun retry_loop ::
  "int \<Rightarrow> 'd list \<Rightarrow> int \<Rightarrow> nat list \<Rightarrow> 'd world \<Rightarrow> bool \<times> 'd world" where
  "retry_loop retries batch batch_num [] w = (False, w)"
| "retry_loop retries batch batch_num (attempt # rest) w =
     (case add_documents batch_num batch w of
        (True, w1) \<Rightarrow> (True, w1)
      | (False, w1) \<Rightarrow>
          if int attempt < retries - 1
          then retry_loop retries batch batch_num rest (sleep (of_int ((2 ^ attempt) * 2)) w1)
          else (False, w1))"

definition insert_batch_with_retry ::
  "inserter \<Rightarrow> 'd list \<Rightarrow> int \<Rightarrow> 'd world \<Rightarrow> bool \<times> 'd world" where
  "insert_batch_with_retry self batch batch_num w =
     retry_loop (max_retries self) batch batch_num [0..<nat (max_retries self)]
       (emit (InsertBatch batch_num batch) w)"

subsection \<open>Batched insertion: \<^verbatim>\<open>insert_chunks_batch\<close>\<close>

text \<open>
  The loop state is the two counters and the world. The function returns the final
  counters, which the source reports in its closing log line.
\<close>

type_synonym 'd counters = "int \<times> int \<times> 'd world"

definition batch_body ::
  "inserter \<Rightarrow> 'd list \<Rightarrow> int \<Rightarrow> int \<Rightarrow> 'd counters \<Rightarrow> 'd counters" where
  "batch_body self documents batch_size i st =
     (case st of (successful, failed, w) \<Rightarrow>
        let batch = py_slice documents i (i + batch_size);
            batch_num = i div batch_size + 1
        in case insert_batch_with_retry self batch batch_num w of
             (True, w1) \<Rightarrow>
               let successful1 = successful + 1;
                   w2 = (if successful1 mod 10 = 0
                         then save_progress batch_num successful1 failed w1 else w1)
               in (successful1, failed, sleep (1 / 2) w2)
           | (False, w1) \<Rightarrow> (successful, failed + 1, sleep (1 / 2) w1))"

fun batch_loop ::
  "inserter \<Rightarrow> 'd list \<Rightarrow> int \<Rightarrow> int list \<Rightarrow> 'd counters \<Rightarrow> 'd counters" where
  "batch_loop self documents batch_size [] st = st"
| "batch_loop self documents batch_size (i # rest) st =
     batch_loop self documents batch_size rest (batch_body self documents batch_size i st)"

definition insert_chunks_batch ::
  "inserter \<Rightarrow> 'd list \<Rightarrow> int \<Rightarrow> int \<Rightarrow> 'd world \<Rightarrow> error + 'd counters" where
  "insert_chunks_batch self documents batch_size resume_from w =
     (if batch_size = 0 then Inl ZeroDivisionError
      else
        let total_docs = int (length documents)
        in Inr (batch_loop self documents batch_size
                  (py_range (resume_from * batch_size) total_docs batch_size) (0, 0, w)))"

subsection \<open>One by one: \<^verbatim>\<open>insert_chunks_individual\<close>\<close>



subsection \<open>The whole run: \<^verbatim>\<open>process_csv_file\<close>\<close>



subsection \<open>Reading a trace\<close>

text \<open>
  The events a call adds to the trace, and what is read off them: the batches handed
  to the retry routine, the calls made to the store, their outcomes, the sleeps and
  the checkpoints written.
\<close>

definition since :: "'d world \<Rightarrow> 'd world \<Rightarrow> 'd event list" where
  "since w w1 = drop (length (trace w)) (trace w1)"

definition attempted :: "'d event list \<Rightarrow> (int \<times> 'd list) list" where
  "attempted tr = concat (map (\<lambda>e. case e of InsertBatch n b \<Rightarrow> [(n, b)] | _ \<Rightarrow> []) tr)"

definition submitted :: "'d event list \<Rightarrow> (int \<times> 'd list) list" where
  "submitted tr = concat (map (\<lambda>e. case e of AddDocuments n b ok \<Rightarrow> [(n, b)] | _ \<Rightarrow> []) tr)"

definition attempts :: "'d event list \<Rightarrow> bool list" where
  "attempts tr = concat (map (\<lambda>e. case e of AddDocuments n b ok \<Rightarrow> [ok] | _ \<Rightarrow> []) tr)"

definition successes :: "'d event list \<Rightarrow> nat" where
  "successes tr = length (filter id (attempts tr))"

definition waits :: "'d event list \<Rightarrow> rat list" where
  "waits tr = concat (map (\<lambda>e. case e of Sleep t \<Rightarrow> [t] | _ \<Rightarrow> []) tr)"

definition saves :: "'d event list \<Rightarrow> progress list" where
  "saves tr = concat (map (\<lambda>e. case e of SaveProgress p out \<Rightarrow> [p] | _ \<Rightarrow> []) tr)"

text \<open>The two events of an attempt that raises and is retried.\<close>

definition backoff :: "int \<Rightarrow> 'd list \<Rightarrow> nat \<Rightarrow> 'd event list" where
  "backoff batch_num batch attempt =
     [AddDocuments batch_num batch False, Sleep (of_int ((2 ^ attempt) * 2))]"

text \<open>An event that neither completes a batch nor starts one nor writes a checkpoint.\<close>

fun quiet :: "'d event \<Rightarrow> bool" where
  "quiet (AddDocuments n b ok) = (\<not> ok)"
| "quiet (Sleep t) = True"
| "quiet (InsertBatch n b) = False"
| "quiet (SaveProgress p out) = False"
| "quiet (Remove ok) = False"

subsection \<open>The shape of a batch in the trace\<close>

text \<open>
  What a call of \<^verbatim>\<open>_insert_batch_with_retry\<close> adds after its marker: quiet events only,
  closed by the one successful call when the batch succeeds; every store call in it is
  for this batch.
\<close>

definition retry_events :: "int \<Rightarrow> 'd list \<Rightarrow> bool \<Rightarrow> 'd event list \<Rightarrow> bool" where
  "retry_events num batch ok ext \<longleftrightarrow>
     (if ok then \<exists>q. ext = q @ [AddDocuments num batch True] \<and> list_all quiet q
      else list_all quiet ext)
     \<and> set (submitted ext) \<subseteq> {(num, batch)}"

text \<open>
  Every checkpoint write in a trace comes right after the successful store call that
  completes a batch and right before the delay between batches; it carries the number
  of that batch, the number of successful calls so far, a multiple of 10, and the
  number of batches handed over so far that did not succeed.
\<close>

definition save_sound :: "'d event list \<Rightarrow> bool" where
  "save_sound tr \<longleftrightarrow>
     (\<forall>pre p out post. tr = pre @ SaveProgress p out # post \<longrightarrow>
        (\<exists>q b. pre = q @ [AddDocuments (current_batch p) b True])
      \<and> (\<exists>post1. post = Sleep (1 / 2) # post1)
      \<and> successful_batches p = int (successes pre)
      \<and> 0 < successes pre \<and> successes pre mod 10 = 0
      \<and> failed_batches p = int (length (attempted pre)) - int (successes pre))"

text \<open>Every successful store call that brings the count to a multiple of 10 is followed
  by a checkpoint write.\<close>

definition save_complete :: "'d event list \<Rightarrow> bool" where
  "save_complete tr \<longleftrightarrow>
     (\<forall>pre n b post. tr = pre @ AddDocuments n b True # post \<and> (successes pre + 1) mod 10 = 0
        \<longrightarrow> (\<exists>p out post1. post = SaveProgress p out # post1))"

text \<open>The events of one iteration of the batch loop.\<close>

definition segment ::
  "int \<Rightarrow> 'd list \<Rightarrow> 'd event list \<Rightarrow> 'd event list \<Rightarrow> 'd event list" where
  "segment num batch ext sv = InsertBatch num batch # ext @ sv @ [Sleep (1 / 2)]"

text \<open>
  What holds between the iterations of the batch loop, for the world \<open>w\<close> the loop
  started in and the events \<open>tr\<close> added since: the counters count the successful
  store calls and the other batches handed over, checkpoints are written when and
  only when the discipline above says, the answers of the world are as at the start,
  and the file is as at the start until a checkpoint is written and holds the last
  checkpoint when writes succeed.
\<close>

definition loop_inv :: "'d world \<Rightarrow> 'd event list \<Rightarrow> 'd counters \<Rightarrow> bool" where
  "loop_inv w tr st \<longleftrightarrow>
     (case st of (s, f, w1) \<Rightarrow>
        trace w1 = trace w @ tr
      \<and> s = int (successes tr)
      \<and> f = int (length (attempted tr)) - int (successes tr)
      \<and> save_sound tr \<and> save_complete tr
      \<and> add_ok w1 = add_ok w \<and> write_outcomes w1 = write_outcomes w
      \<and> remove_ok w1 = remove_ok w
      \<and> (saves tr = [] \<longrightarrow> progress_file w1 = progress_file w)
      \<and> ((\<forall>n. write_outcomes w n = Written) \<and> saves tr \<noteq> []
           \<longrightarrow> progress_file w1 = Some (Checkpoint (last (saves tr)))))"

subsection \<open>Example inputs\<close>

definition example_inserter :: "int \<Rightarrow> inserter" where
  "example_inserter retries =
     \<lparr>postgres_url = ''postgresql://localhost/hadith'', google_api_key = ''key'',
      collection_name = ''rag_ahadees'', max_retries = retries\<rparr>"

definition example_world ::
  "(nat \<Rightarrow> bool) \<Rightarrow> write_outcome \<Rightarrow> bool \<Rightarrow> file_content option \<Rightarrow> 'd world" where
  "example_world ok out rm f =
     \<lparr>add_ok = ok, add_calls = 0, write_outcomes = (\<lambda>n. out), write_calls = 0,
      remove_ok = rm, progress_file = f, trace = []\<rparr>"

definition always :: "bool \<Rightarrow> nat \<Rightarrow> bool" where
  "always b n = b"

definition from_third :: "nat \<Rightarrow> bool" where
  "from_third n = (2 \<le> n)"

definition example_environ :: environ where
  "example_environ = [''POSTGRES_URL'' \<mapsto> ''postgresql://localhost/hadith'',
                      ''GOOGLE_API_KEY'' \<mapsto> ''key'']"

text \<open>A row read from a line whose source, numbers, chapter and chain cells are empty.\<close>

definition row_with_empty_cells :: row where
  "row_with_empty_cells =
     [(''source'', NaN), (''hadith_no'', NaN), (''chapter_no'', NaN),
      (''chapter'', NaN), (''chain_indx'', NaN),
      (''text_ar'', StrV ''matn''), (''text_en'', StrV ''text'')]"


text \<open>
  What \<^verbatim>\<open>int\<close> answers on the strings the examples use; on every other string this
  instance raises.
\<close>

definition example_int :: "string \<Rightarrow> error + int" where
  "example_int s =
     (case map_of [(''3'', 3), (''5'', 5), (''0'', 0)] s of
        Some n \<Rightarrow> Inr n
      | None \<Rightarrow> Inl (ValueError ''invalid literal for int() with base 10''))"


section \<open>Properties\<close>

subsection \<open>Reading a trace: basic facts\<close>

lemma since_append [simp]: "since w (w\<lparr>trace := trace w @ ext\<rparr>) = ext"
  by (simp add: since_def)

lemma since_append' [simp]: "since w (w\<lparr>add_calls := c, trace := trace w @ ext\<rparr>) = ext"
  by (simp add: since_def)

lemma waits_append: "waits (xs @ ys) = waits xs @ waits ys"
  by (simp add: waits_def)

lemma attempts_append: "attempts (xs @ ys) = attempts xs @ attempts ys"
  by (simp add: attempts_def)

lemma attempted_append: "attempted (xs @ ys) = attempted xs @ attempted ys"
  by (simp add: attempted_def)

lemma submitted_append: "submitted (xs @ ys) = submitted xs @ submitted ys"
  by (simp add: submitted_def)

lemma saves_append: "saves (xs @ ys) = saves xs @ saves ys"
  by (simp add: saves_def)

lemma successes_append: "successes (xs @ ys) = successes xs + successes ys"
  by (simp add: successes_def attempts_append)

lemma waits_backoffs:
  "waits (concat (map (backoff num batch) [k..<k + n])) =
     map (\<lambda>a. of_int ((2 ^ a) * 2)) [k..<k + n]"
proof (induction n)
  case 0
  then show ?case by (simp add: waits_def)
next
  case (Suc n)
  have "waits (backoff num batch (k + n)) = [of_int ((2 ^ (k + n)) * 2)]"
    by (simp add: waits_def backoff_def)
  with Suc show ?case by (simp add: waits_append)
qed

lemma attempts_backoffs:
  "attempts (concat (map (backoff num batch) [k..<k + n])) = replicate n False"
proof (induction n)
  case 0
  then show ?case by (simp add: attempts_def)
next
  case (Suc n)
  have "attempts (backoff num batch (k + n)) = [False]"
    by (simp add: attempts_def backoff_def)
  with Suc show ?case by (simp add: attempts_append replicate_append_same)
qed

lemma quiet_backoffs: "list_all quiet (concat (map (backoff num batch) ks))"
  by (induction ks) (simp_all add: backoff_def)

lemma submitted_backoffs:
  "set (submitted (concat (map (backoff num batch) ks))) \<subseteq> {(num, batch)}"
  by (induction ks) (simp_all add: submitted_append, simp_all add: submitted_def backoff_def)

subsection \<open>The retry loop in closed form\<close>

lemma retry_loop_Cons:
  "retry_loop retries batch num (attempt # rest) w =
     (if add_ok w (add_calls w)
      then (True, w\<lparr>add_calls := Suc (add_calls w),
                    trace := trace w @ [AddDocuments num batch True]\<rparr>)
      else if int attempt < retries - 1
      then retry_loop retries batch num rest
             (w\<lparr>add_calls := Suc (add_calls w), trace := trace w @ backoff num batch attempt\<rparr>)
      else (False, w\<lparr>add_calls := Suc (add_calls w),
                     trace := trace w @ [AddDocuments num batch False]\<rparr>))"
  by (simp add: add_documents_def emit_def sleep_def backoff_def Let_def)

lemma retry_loop_succeeds:
  "\<lbrakk>\<forall>j<f. \<not> add_ok w (add_calls w + j); add_ok w (add_calls w + f); k + f < nat retries\<rbrakk>
   \<Longrightarrow> retry_loop retries batch num [k..<nat retries] w =
        (True, w\<lparr>add_calls := add_calls w + f + 1,
                 trace := trace w @ concat (map (backoff num batch) [k..<k + f]) @
                            [AddDocuments num batch True]\<rparr>)"
proof (induction f arbitrary: k w)
  case 0
  then show ?case by (simp add: upt_conv_Cons retry_loop_Cons del: retry_loop.simps)
next
  case (Suc f)
  let ?w1 = "w\<lparr>add_calls := Suc (add_calls w), trace := trace w @ backoff num batch k\<rparr>"
  from Suc.prems have fail0: "\<not> add_ok w (add_calls w)" by force
  from Suc.prems have lt: "k < nat retries" "int k < retries - 1" by linarith+
  have a: "\<forall>j<f. \<not> add_ok ?w1 (add_calls ?w1 + j)" using Suc.prems(1) by auto
  have b: "add_ok ?w1 (add_calls ?w1 + f)" using Suc.prems(2) by simp
  have c: "Suc k + f < nat retries" using Suc.prems(3) by simp
  have "retry_loop retries batch num [k..<nat retries] w =
          retry_loop retries batch num [Suc k..<nat retries] ?w1"
    using fail0 lt by (simp add: upt_conv_Cons retry_loop_Cons del: retry_loop.simps)
  also have "\<dots> = (True, ?w1\<lparr>add_calls := add_calls ?w1 + f + 1,
                 trace := trace ?w1 @ concat (map (backoff num batch) [Suc k..<Suc k + f]) @
                            [AddDocuments num batch True]\<rparr>)"
    by (rule Suc.IH[OF a b c])
  also have "\<dots> = (True, w\<lparr>add_calls := add_calls w + Suc f + 1,
                 trace := trace w @ concat (map (backoff num batch) [k..<k + Suc f]) @
                            [AddDocuments num batch True]\<rparr>)"
  proof -
    have "[k..<k + Suc f] = k # [Suc k..<Suc k + f]" by (subst upt_rec) simp
    then show ?thesis by simp
  qed
  finally show ?case .
qed

lemma retry_loop_exhausted:
  "\<lbrakk>\<forall>j<n. \<not> add_ok w (add_calls w + j); k + n = nat retries; 0 < n\<rbrakk>
   \<Longrightarrow> retry_loop retries batch num [k..<nat retries] w =
        (False, w\<lparr>add_calls := add_calls w + n,
                  trace := trace w @ concat (map (backoff num batch) [k..<k + n - 1]) @
                             [AddDocuments num batch False]\<rparr>)"
proof (induction n arbitrary: k w)
  case 0
  then show ?case by simp
next
  case (Suc n)
  from Suc.prems have fail0: "\<not> add_ok w (add_calls w)" by force
  show ?case
  proof (cases "n = 0")
    case True
    with Suc.prems have "int k = retries - 1" "k < nat retries" by linarith+
    then show ?thesis
      using fail0 True by (simp add: upt_conv_Cons retry_loop_Cons del: retry_loop.simps)
  next
    case False
    let ?w1 = "w\<lparr>add_calls := Suc (add_calls w), trace := trace w @ backoff num batch k\<rparr>"
    from Suc.prems False have lt: "k < nat retries" "int k < retries - 1" by linarith+
    have a: "\<forall>j<n. \<not> add_ok ?w1 (add_calls ?w1 + j)" using Suc.prems(1) by auto
    have c: "Suc k + n = nat retries" using Suc.prems(2) by simp
    have "retry_loop retries batch num [k..<nat retries] w =
            retry_loop retries batch num [Suc k..<nat retries] ?w1"
      using fail0 lt by (simp add: upt_conv_Cons retry_loop_Cons del: retry_loop.simps)
    also have "\<dots> = (False, ?w1\<lparr>add_calls := add_calls ?w1 + n,
                  trace := trace ?w1 @ concat (map (backoff num batch) [Suc k..<Suc k + n - 1]) @
                             [AddDocuments num batch False]\<rparr>)"
      using False by (intro Suc.IH[OF a c]) simp
    also have "\<dots> = (False, w\<lparr>add_calls := add_calls w + Suc n,
                  trace := trace w @ concat (map (backoff num batch) [k..<k + Suc n - 1]) @
                             [AddDocuments num batch False]\<rparr>)"
    proof -
      have "[k..<k + Suc n - 1] = k # [Suc k..<Suc k + n - 1]"
        using False by (subst upt_rec) simp
      then show ?thesis by simp
    qed
    finally show ?thesis .
  qed
qed

lemma insert_batch_with_retry_succeeds:
  assumes "\<forall>j<f. \<not> add_ok w (add_calls w + j)" and "add_ok w (add_calls w + f)"
      and "int f < max_retries self"
  shows "insert_batch_with_retry self batch num w =
        (True, w\<lparr>add_calls := add_calls w + f + 1,
                 trace := trace w @ InsertBatch num batch #
                            concat (map (backoff num batch) [0..<f]) @
                            [AddDocuments num batch True]\<rparr>)"
proof -
  let ?w = "emit (InsertBatch num batch) w"
  have a: "\<forall>j<f. \<not> add_ok ?w (add_calls ?w + j)" and b: "add_ok ?w (add_calls ?w + f)"
    using assms by (simp_all add: emit_def)
  have c: "0 + f < nat (max_retries self)" using assms(3) by linarith
  show ?thesis
    unfolding insert_batch_with_retry_def
    by (subst retry_loop_succeeds[OF a b c]) (simp add: emit_def)
qed

lemma insert_batch_with_retry_exhausted:
  assumes "\<forall>j<nat (max_retries self). \<not> add_ok w (add_calls w + j)" and "1 \<le> max_retries self"
  shows "insert_batch_with_retry self batch num w =
        (False, w\<lparr>add_calls := add_calls w + nat (max_retries self),
                  trace := trace w @ InsertBatch num batch #
                             concat (map (backoff num batch) [0..<nat (max_retries self) - 1]) @
                             [AddDocuments num batch False]\<rparr>)"
proof -
  let ?w = "emit (InsertBatch num batch) w"
  let ?n = "nat (max_retries self)"
  have a: "\<forall>j<?n. \<not> add_ok ?w (add_calls ?w + j)"
    using assms by (simp_all add: emit_def)
  have c: "0 + ?n = nat (max_retries self)" "0 < ?n" using assms(2) by linarith+
  show ?thesis
    unfolding insert_batch_with_retry_def
    by (subst retry_loop_exhausted[OF a c]) (simp add: emit_def)
qed

lemma insert_batch_with_retry_none:
  assumes "max_retries self \<le> 0"
  shows "insert_batch_with_retry self batch num w =
        (False, w\<lparr>trace := trace w @ [InsertBatch num batch]\<rparr>)"
  using assms by (simp add: insert_batch_with_retry_def emit_def)

text \<open>The three ways a call can go.\<close>

lemma insert_batch_with_retry_cases:
  obtains (none) "max_retries self \<le> 0"
  | (succeeds) f where "\<forall>j<f. \<not> add_ok w (add_calls w + j)" "add_ok w (add_calls w + f)"
      "int f < max_retries self"
  | (exhausted) "\<forall>j<nat (max_retries self). \<not> add_ok w (add_calls w + j)"
      "1 \<le> max_retries self"
proof (cases "max_retries self \<le> 0")
  case True
  then show ?thesis by (rule none)
next
  case pos: False
  show ?thesis
  proof (cases "\<exists>j<nat (max_retries self). add_ok w (add_calls w + j)")
    case True
    define f where "f = (LEAST j. add_ok w (add_calls w + j))"
    from True obtain j where j: "j < nat (max_retries self)" "add_ok w (add_calls w + j)"
      by blast
    have "\<forall>i<f. \<not> add_ok w (add_calls w + i)"
      unfolding f_def using not_less_Least by blast
    moreover have "add_ok w (add_calls w + f)" unfolding f_def using j(2) by (rule LeastI)
    moreover have "f \<le> j" unfolding f_def using j(2) by (rule Least_le)
    then have "int f < max_retries self" using j(1) by linarith
    ultimately show ?thesis by (rule succeeds)
  next
    case False
    then show ?thesis using pos by (intro exhausted) auto
  qed
qed

subsection \<open>Retry and backoff\<close>

text \<open>
  C3. A call of \<^verbatim>\<open>_insert_batch_with_retry\<close> calls the store at most \<open>max_retries\<close>
  times. Its events are the failed attempts \<open>0, 1, ...\<close>, each followed by a sleep of
  \<open>2 ^ attempt * 2\<close>, and then the last attempt, with no sleep after it: so there is
  one sleep before each retry, and the sleep after the failed attempt \<open>a\<close> lasts
  \<open>2 ^ a * 2\<close>. With three retries, when the first two calls raise and the third
  returns, the call returns \<open>True\<close> after the two sleeps 2 and 4.
\<close>

theorem insert_batch_with_retry_backoff:
  "(case insert_batch_with_retry self batch batch_num w of (success, w1) \<Rightarrow>
      length (attempts (since w w1)) \<le> nat (max_retries self)
    \<and> waits (since w w1) =
        map (\<lambda>attempt. of_int ((2 ^ attempt) * 2)) [0..<length (attempts (since w w1)) - 1]
    \<and> (\<exists>k. since w w1 = InsertBatch batch_num batch #
              concat (map (\<lambda>attempt. [AddDocuments batch_num batch False,
                                      Sleep (of_int ((2 ^ attempt) * 2))]) [0..<k])
              @ (if max_retries self \<le> 0 then [] else [AddDocuments batch_num batch success]))
    \<and> (max_retries self = 3 \<and> \<not> add_ok w (add_calls w) \<and> \<not> add_ok w (add_calls w + 1)
          \<and> add_ok w (add_calls w + 2)
        \<longrightarrow> success \<and> waits (since w w1) = [2, 4]
              \<and> attempts (since w w1) = [False, False, True]))"
proof (cases rule: insert_batch_with_retry_cases[where self = self and w = w])
  case none
  have "\<exists>k. [InsertBatch batch_num batch] = InsertBatch batch_num batch #
              concat (map (\<lambda>attempt. [AddDocuments batch_num batch False,
                                      Sleep (of_int ((2 ^ attempt) * 2))]) [0..<k])"
    by (intro exI[of _ 0]) simp
  with none show ?thesis
    by (simp add: insert_batch_with_retry_none since_def waits_def attempts_def)
next
  case (succeeds f)
  let ?run = "insert_batch_with_retry self batch batch_num w"
  have bo: "backoff batch_num batch = (\<lambda>attempt. [AddDocuments batch_num batch False,
               Sleep (of_int ((2 ^ attempt) * 2))])"
    by (rule ext) (simp add: backoff_def)
  have f2: "max_retries self = 3 \<and> \<not> add_ok w (add_calls w) \<and> \<not> add_ok w (add_calls w + 1)
          \<and> add_ok w (add_calls w + 2) \<longrightarrow> f = 2"
  proof (intro impI)
    assume h: "max_retries self = 3 \<and> \<not> add_ok w (add_calls w) \<and> \<not> add_ok w (add_calls w + 1)
          \<and> add_ok w (add_calls w + 2)"
    have "\<not> f < 2"
    proof
      assume "f < 2"
      then have "f = 0 \<or> f = 1" by linarith
      then show False using h succeeds(2) by auto
    qed
    moreover have "\<not> 2 < f" using h succeeds(1) by auto
    ultimately show "f = 2" by linarith
  qed
  have w: "waits (concat (map (backoff batch_num batch) [0..<f])) =
             map (\<lambda>a. of_int ((2 ^ a) * 2)) [0..<f]"
    using waits_backoffs[of batch_num batch 0 f] by simp
  have a: "attempts (concat (map (backoff batch_num batch) [0..<f])) = replicate f False"
    using attempts_backoffs[of batch_num batch 0 f] by simp
  have n: "f < nat (max_retries self)" using succeeds(3) by linarith
  have more: "waits [InsertBatch batch_num batch] = []"
     "attempts [InsertBatch batch_num batch] = []"
     "waits [AddDocuments batch_num batch True] = []"
     "attempts [AddDocuments batch_num batch True] = [True]"
    by (simp_all add: waits_def attempts_def)
  have tr: "since w (snd ?run) =
      [InsertBatch batch_num batch] @ concat (map (backoff batch_num batch) [0..<f]) @
      [AddDocuments batch_num batch True]"
    by (simp add: insert_batch_with_retry_succeeds[OF succeeds] since_def)
  have c1: "attempts (since w (snd ?run)) = replicate f False @ [True]"
    unfolding tr attempts_append a more by simp
  have c2: "waits (since w (snd ?run)) = map (\<lambda>a. of_int ((2 ^ a) * 2)) [0..<f]"
    unfolding tr waits_append w more by simp
  have c3: "fst ?run"
    by (simp add: insert_batch_with_retry_succeeds[OF succeeds])
  have ex: "\<exists>k. since w (snd ?run) = InsertBatch batch_num batch #
              concat (map (\<lambda>attempt. [AddDocuments batch_num batch False,
                                      Sleep (of_int ((2 ^ attempt) * 2))]) [0..<k])
              @ (if max_retries self \<le> 0 then [] else [AddDocuments batch_num batch True])"
    using succeeds(3) by (intro exI[of _ f]) (simp add: tr bo)
  have sc: "max_retries self = 3 \<and> \<not> add_ok w (add_calls w) \<and> \<not> add_ok w (add_calls w + 1)
          \<and> add_ok w (add_calls w + 2) \<longrightarrow> map (\<lambda>a. rat_of_int ((2 ^ a) * 2)) [0..<f] = [2, 4]
             \<and> replicate f False @ [True] = [False, False, True]"
    using f2 by (auto simp: numeral_2_eq_2)
  show ?thesis
    using c1 c2 c3 ex sc n succeeds(3) by (simp add: split_beta)
next
  case exhausted
  let ?run = "insert_batch_with_retry self batch batch_num w"
  let ?n = "nat (max_retries self)"
  have bo: "backoff batch_num batch = (\<lambda>attempt. [AddDocuments batch_num batch False,
               Sleep (of_int ((2 ^ attempt) * 2))])"
    by (rule ext) (simp add: backoff_def)
  have w: "waits (concat (map (backoff batch_num batch) [0..<?n - 1])) =
             map (\<lambda>a. of_int ((2 ^ a) * 2)) [0..<?n - 1]"
    using waits_backoffs[of batch_num batch 0 "?n - 1"] by simp
  have a: "attempts (concat (map (backoff batch_num batch) [0..<?n - 1])) =
             replicate (?n - 1) False"
    using attempts_backoffs[of batch_num batch 0 "?n - 1"] by simp
  have more: "waits [InsertBatch batch_num batch] = []"
     "attempts [InsertBatch batch_num batch] = []"
     "waits [AddDocuments batch_num batch False] = []"
     "attempts [AddDocuments batch_num batch False] = [False]"
    by (simp_all add: waits_def attempts_def)
  have tr: "since w (snd ?run) =
      [InsertBatch batch_num batch] @ concat (map (backoff batch_num batch) [0..<?n - 1]) @
      [AddDocuments batch_num batch False]"
    by (simp add: insert_batch_with_retry_exhausted[OF exhausted] since_def)
  have c1: "attempts (since w (snd ?run)) = replicate (?n - 1) False @ [False]"
    unfolding tr attempts_append a more by simp
  have c2: "waits (since w (snd ?run)) = map (\<lambda>a. of_int ((2 ^ a) * 2)) [0..<?n - 1]"
    unfolding tr waits_append w more by simp
  have c3: "\<not> fst ?run"
    by (simp add: insert_batch_with_retry_exhausted[OF exhausted])
  have ex: "\<exists>k. since w (snd ?run) = InsertBatch batch_num batch #
              concat (map (\<lambda>attempt. [AddDocuments batch_num batch False,
                                      Sleep (of_int ((2 ^ attempt) * 2))]) [0..<k])
              @ (if max_retries self \<le> 0 then [] else [AddDocuments batch_num batch False])"
    using exhausted(2) by (intro exI[of _ "?n - 1"]) (simp add: tr bo)
  have sc: "\<not> (max_retries self = 3 \<and> \<not> add_ok w (add_calls w) \<and> \<not> add_ok w (add_calls w + 1)
          \<and> add_ok w (add_calls w + 2))"
    using exhausted(1) by (auto dest: spec[of _ 2])
  have n: "1 \<le> ?n" using exhausted(2) by linarith
  show ?thesis
    using c1 c2 c3 ex sc n exhausted(2) by (simp add: split_beta)
qed

theorem insert_batch_with_retry_backoff_witness:
  "fst (insert_batch_with_retry (example_inserter 3) [''a'', ''b''] 1
          (example_world from_third Written True None))
   \<and> waits (since (example_world from_third Written True None)
        (snd (insert_batch_with_retry (example_inserter 3) [''a'', ''b''] 1
               (example_world from_third Written True None)))) = [2, 4]"
  using insert_batch_with_retry_backoff
          [where self = "example_inserter 3" and batch = "[''a'', ''b'']" and batch_num = 1
             and w = "example_world from_third Written True None"]
  by (simp add: split_beta example_inserter_def example_world_def from_third_def)

text \<open>
  C8 (as the code has it). When every attempt of a batch raises, the call returns
  \<open>False\<close> right after the last failed attempt: the trace ends with that attempt, and
  the sleeps are those after the attempts \<open>0, ..., max_retries - 2\<close> only.
\<close>

theorem no_backoff_after_final_attempt:
  assumes "\<forall>j<nat (max_retries self). \<not> add_ok w (add_calls w + j)"
      and "1 \<le> max_retries self"
  shows "\<not> fst (insert_batch_with_retry self batch batch_num w)
       \<and> last (trace (snd (insert_batch_with_retry self batch batch_num w))) =
           AddDocuments batch_num batch False
       \<and> length (attempts (since w (snd (insert_batch_with_retry self batch batch_num w)))) =
           nat (max_retries self)
       \<and> waits (since w (snd (insert_batch_with_retry self batch batch_num w))) =
           map (\<lambda>attempt. of_int ((2 ^ attempt) * 2)) [0..<nat (max_retries self) - 1]"
proof -
  let ?n = "nat (max_retries self)"
  have w: "waits (concat (map (backoff batch_num batch) [0..<?n - 1])) =
             map (\<lambda>a. of_int ((2 ^ a) * 2)) [0..<?n - 1]"
    using waits_backoffs[of batch_num batch 0 "?n - 1"] by simp
  have a: "attempts (concat (map (backoff batch_num batch) [0..<?n - 1])) =
             replicate (?n - 1) False"
    using attempts_backoffs[of batch_num batch 0 "?n - 1"] by simp
  have more: "waits [InsertBatch batch_num batch] = []"
     "attempts [InsertBatch batch_num batch] = []"
     "waits [AddDocuments batch_num batch False] = []"
     "attempts [AddDocuments batch_num batch False] = [False]"
    by (simp_all add: waits_def attempts_def)
  have n: "1 \<le> ?n" using assms(2) by linarith
  have tr: "since w (snd (insert_batch_with_retry self batch batch_num w)) =
      [InsertBatch batch_num batch] @ concat (map (backoff batch_num batch) [0..<?n - 1]) @
      [AddDocuments batch_num batch False]"
    by (simp add: insert_batch_with_retry_exhausted[OF assms] since_def)
  have "length (attempts (since w (snd (insert_batch_with_retry self batch batch_num w)))) = ?n"
    unfolding tr attempts_append a more using n by simp
  moreover have "waits (since w (snd (insert_batch_with_retry self batch batch_num w))) =
           map (\<lambda>attempt. of_int ((2 ^ attempt) * 2)) [0..<?n - 1]"
    unfolding tr waits_append w more by simp
  ultimately show ?thesis
    by (simp add: insert_batch_with_retry_exhausted[OF assms])
qed

theorem no_backoff_after_final_attempt_witness:
  "\<not> fst (insert_batch_with_retry (example_inserter 3) [''a'', ''b''] 1
          (example_world (always False) Written True None))
   \<and> last (trace (snd (insert_batch_with_retry (example_inserter 3) [''a'', ''b''] 1
          (example_world (always False) Written True None)))) = AddDocuments 1 [''a'', ''b''] False
   \<and> waits (since (example_world (always False) Written True None)
        (snd (insert_batch_with_retry (example_inserter 3) [''a'', ''b''] 1
               (example_world (always False) Written True None)))) = [2, 4]"
  using no_backoff_after_final_attempt
          [where self = "example_inserter 3" and batch = "[''a'', ''b'']" and batch_num = 1
             and w = "example_world (always False) Written True None"]
  by (simp add: example_inserter_def example_world_def always_def numeral_2_eq_2)

theorem backoff_after_final_attempt_counterexample:
  "trace (snd (insert_batch_with_retry (example_inserter 3) [''a'', ''b''] 1
          (example_world (always False) Written True None))) =
     [InsertBatch 1 [''a'', ''b''],
      AddDocuments 1 [''a'', ''b''] False, Sleep 2,
      AddDocuments 1 [''a'', ''b''] False, Sleep 4,
      AddDocuments 1 [''a'', ''b''] False]"
  by (simp add: insert_batch_with_retry_def example_inserter_def example_world_def always_def
        add_documents_def emit_def sleep_def upt_conv_Cons)

subsection \<open>Configuration\<close>

lemma init_Inr:
  assumes "init to_int u g c m env = Inr (cfg, env1)"
  shows "str_or u (env ''POSTGRES_URL'') = Some (postgres_url cfg)"
    and "str_or g (env ''GOOGLE_API_KEY'') = Some (google_api_key cfg)"
    and "postgres_url cfg \<noteq> []" and "google_api_key cfg \<noteq> []"
    and "collection_name cfg =
           (case str_or c None of Some s \<Rightarrow> s
            | None \<Rightarrow> getenv_default env ''COLLECTION_NAME'' ''rag_ahadees'')"
    and "(case m of Some n \<Rightarrow> if n \<noteq> 0 then Inr n
                               else to_int (getenv_default env ''MAX_RETRIES'' ''3'')
          | None \<Rightarrow> to_int (getenv_default env ''MAX_RETRIES'' ''3'')) = Inr (max_retries cfg)"
    and "env1 = env(''GOOGLE_API_KEY'' \<mapsto> google_api_key cfg)"
  using assms
  by (auto simp: init_def getenv_def Let_def split: option.splits sum.splits if_splits)

lemma init_succeeds:
  assumes "(case m of Some n \<Rightarrow> if n \<noteq> 0 then Inr n
                               else to_int (getenv_default env ''MAX_RETRIES'' ''3'')
            | None \<Rightarrow> to_int (getenv_default env ''MAX_RETRIES'' ''3'')) = Inr r"
      and "str_or u (env ''POSTGRES_URL'') = Some s" and "s \<noteq> []"
      and "str_or g (env ''GOOGLE_API_KEY'') = Some k" and "k \<noteq> []"
  shows "\<exists>cfg env1. init to_int u g c m env = Inr (cfg, env1)"
  using assms by (simp add: init_def getenv_def Let_def)

text \<open>
  C9. A falsy constructor argument (the empty string, or 0 for \<^verbatim>\<open>max_retries\<close>) gives
  the same result as the omitted argument, and in both cases the attribute is the
  value of the environment variable (or, for the collection name and the retries,
  the built-in default when the variable is unset), while a truthy argument is taken
  as it is. With \<^verbatim>\<open>max_retries = 0\<close> the inserter has \<^verbatim>\<open>int\<close> of \<^verbatim>\<open>MAX_RETRIES\<close>, which
  is 3 when the variable is unset; and an inserter with zero retries has its zero
  from the environment, whatever the argument was. The constructor succeeds exactly
  when the retries are an integer and both the URL and the key are non-empty.
\<close>

theorem init_falsy_argument_as_omitted:
  "init to_int (Some []) g c m env = init to_int None g c m env
   \<and> init to_int u (Some []) c m env = init to_int u None c m env
   \<and> init to_int u g (Some []) m env = init to_int u g None m env
   \<and> init to_int u g c (Some 0) env = init to_int u g c None env
   \<and> (init to_int u g c m env = Inr (cfg, env1) \<longrightarrow>
        (u = None \<or> u = Some [] \<longrightarrow> env ''POSTGRES_URL'' = Some (postgres_url cfg))
      \<and> (u \<noteq> None \<and> u \<noteq> Some [] \<longrightarrow> u = Some (postgres_url cfg))
      \<and> (g = None \<or> g = Some [] \<longrightarrow> env ''GOOGLE_API_KEY'' = Some (google_api_key cfg))
      \<and> (g \<noteq> None \<and> g \<noteq> Some [] \<longrightarrow> g = Some (google_api_key cfg))
      \<and> (c = None \<or> c = Some [] \<longrightarrow>
            collection_name cfg =
              (case env ''COLLECTION_NAME'' of Some v \<Rightarrow> v | None \<Rightarrow> ''rag_ahadees''))
      \<and> (c \<noteq> None \<and> c \<noteq> Some [] \<longrightarrow> c = Some (collection_name cfg))
      \<and> (m = None \<or> m = Some 0 \<longrightarrow>
            to_int (case env ''MAX_RETRIES'' of Some v \<Rightarrow> v | None \<Rightarrow> ''3'') =
              Inr (max_retries cfg))
      \<and> (m \<noteq> None \<and> m \<noteq> Some 0 \<longrightarrow> m = Some (max_retries cfg))
      \<and> postgres_url cfg \<noteq> [] \<and> google_api_key cfg \<noteq> []
      \<and> env1 = env(''GOOGLE_API_KEY'' \<mapsto> google_api_key cfg))
   \<and> (init to_int u g c (Some 0) env = Inr (cfg, env1) \<and> env ''MAX_RETRIES'' = None
        \<and> to_int ''3'' = Inr 3 \<longrightarrow> max_retries cfg = 3)
   \<and> (init to_int u g c m env = Inr (cfg, env1) \<and> max_retries cfg = 0 \<longrightarrow>
        to_int (case env ''MAX_RETRIES'' of Some v \<Rightarrow> v | None \<Rightarrow> ''3'') = Inr 0)
   \<and> ((\<exists>cfg env1. init to_int u g c m env = Inr (cfg, env1)) \<longleftrightarrow>
        (m = None \<or> m = Some 0 \<longrightarrow>
           (\<exists>r. to_int (case env ''MAX_RETRIES'' of Some v \<Rightarrow> v | None \<Rightarrow> ''3'') = Inr r))
      \<and> (\<exists>s. s \<noteq> [] \<and> (if u = None \<or> u = Some [] then env ''POSTGRES_URL'' else u) = Some s)
      \<and> (\<exists>s. s \<noteq> [] \<and> (if g = None \<or> g = Some [] then env ''GOOGLE_API_KEY'' else g) = Some s))"
proof -
  let ?mr = "case env ''MAX_RETRIES'' of Some v \<Rightarrow> v | None \<Rightarrow> ''3''"
  have mr: "getenv_default env ''MAX_RETRIES'' ''3'' = ?mr"
    by (simp add: getenv_default_def)
  have or_u: "str_or u (env ''POSTGRES_URL'') =
                (if u = None \<or> u = Some [] then env ''POSTGRES_URL'' else u)" for u
    by (auto simp: str_or_def split: option.splits)
  have or_g: "str_or g (env ''GOOGLE_API_KEY'') =
                (if g = None \<or> g = Some [] then env ''GOOGLE_API_KEY'' else g)" for g
    by (auto simp: str_or_def split: option.splits)
  have retries: "(case m of Some n \<Rightarrow> if n \<noteq> 0 then Inr n
                               else to_int (getenv_default env ''MAX_RETRIES'' ''3'')
                  | None \<Rightarrow> to_int (getenv_default env ''MAX_RETRIES'' ''3'')) =
                 (if m = None \<or> m = Some 0 then to_int ?mr
                  else case m of Some n \<Rightarrow> Inr n | None \<Rightarrow> to_int ?mr)" for m
    by (auto simp: mr split: option.splits)
  have c1: "init to_int (Some []) g c m env = init to_int None g c m env"
    by (simp add: init_def str_or_def)
  have c2: "init to_int u (Some []) c m env = init to_int u None c m env"
    by (simp add: init_def str_or_def)
  have c3: "init to_int u g (Some []) m env = init to_int u g None m env"
    by (simp add: init_def str_or_def)
  have c4: "init to_int u g c (Some 0) env = init to_int u g c None env"
    by (simp add: init_def)
  have c5: "init to_int u g c m env = Inr (cfg, env1) \<longrightarrow>
        (u = None \<or> u = Some [] \<longrightarrow> env ''POSTGRES_URL'' = Some (postgres_url cfg))
      \<and> (u \<noteq> None \<and> u \<noteq> Some [] \<longrightarrow> u = Some (postgres_url cfg))
      \<and> (g = None \<or> g = Some [] \<longrightarrow> env ''GOOGLE_API_KEY'' = Some (google_api_key cfg))
      \<and> (g \<noteq> None \<and> g \<noteq> Some [] \<longrightarrow> g = Some (google_api_key cfg))
      \<and> (c = None \<or> c = Some [] \<longrightarrow>
            collection_name cfg =
              (case env ''COLLECTION_NAME'' of Some v \<Rightarrow> v | None \<Rightarrow> ''rag_ahadees''))
      \<and> (c \<noteq> None \<and> c \<noteq> Some [] \<longrightarrow> c = Some (collection_name cfg))
      \<and> (m = None \<or> m = Some 0 \<longrightarrow> to_int ?mr = Inr (max_retries cfg))
      \<and> (m \<noteq> None \<and> m \<noteq> Some 0 \<longrightarrow> m = Some (max_retries cfg))
      \<and> postgres_url cfg \<noteq> [] \<and> google_api_key cfg \<noteq> []
      \<and> env1 = env(''GOOGLE_API_KEY'' \<mapsto> google_api_key cfg)"
  proof
    assume run: "init to_int u g c m env = Inr (cfg, env1)"
    note r = init_Inr[OF run]
    have url: "(u = None \<or> u = Some [] \<longrightarrow> env ''POSTGRES_URL'' = Some (postgres_url cfg))
      \<and> (u \<noteq> None \<and> u \<noteq> Some [] \<longrightarrow> u = Some (postgres_url cfg))"
      using r(1) unfolding or_u by (auto split: if_splits)
    have key: "(g = None \<or> g = Some [] \<longrightarrow> env ''GOOGLE_API_KEY'' = Some (google_api_key cfg))
      \<and> (g \<noteq> None \<and> g \<noteq> Some [] \<longrightarrow> g = Some (google_api_key cfg))"
      using r(2) unfolding or_g by (auto split: if_splits)
    have coll: "(c = None \<or> c = Some [] \<longrightarrow>
            collection_name cfg =
              (case env ''COLLECTION_NAME'' of Some v \<Rightarrow> v | None \<Rightarrow> ''rag_ahadees''))
      \<and> (c \<noteq> None \<and> c \<noteq> Some [] \<longrightarrow> c = Some (collection_name cfg))"
      using r(5) by (auto simp: str_or_def getenv_default_def split: option.splits if_splits)
    have ret: "(m = None \<or> m = Some 0 \<longrightarrow> to_int ?mr = Inr (max_retries cfg))
      \<and> (m \<noteq> None \<and> m \<noteq> Some 0 \<longrightarrow> m = Some (max_retries cfg))"
      using r(6) unfolding retries by (auto split: if_splits option.splits)
    from url key coll ret r(3) r(4) r(7)
    show "(u = None \<or> u = Some [] \<longrightarrow> env ''POSTGRES_URL'' = Some (postgres_url cfg))
      \<and> (u \<noteq> None \<and> u \<noteq> Some [] \<longrightarrow> u = Some (postgres_url cfg))
      \<and> (g = None \<or> g = Some [] \<longrightarrow> env ''GOOGLE_API_KEY'' = Some (google_api_key cfg))
      \<and> (g \<noteq> None \<and> g \<noteq> Some [] \<longrightarrow> g = Some (google_api_key cfg))
      \<and> (c = None \<or> c = Some [] \<longrightarrow>
            collection_name cfg =
              (case env ''COLLECTION_NAME'' of Some v \<Rightarrow> v | None \<Rightarrow> ''rag_ahadees''))
      \<and> (c \<noteq> None \<and> c \<noteq> Some [] \<longrightarrow> c = Some (collection_name cfg))
      \<and> (m = None \<or> m = Some 0 \<longrightarrow> to_int ?mr = Inr (max_retries cfg))
      \<and> (m \<noteq> None \<and> m \<noteq> Some 0 \<longrightarrow> m = Some (max_retries cfg))
      \<and> postgres_url cfg \<noteq> [] \<and> google_api_key cfg \<noteq> []
      \<and> env1 = env(''GOOGLE_API_KEY'' \<mapsto> google_api_key cfg)"
      by simp
  qed
  have c6: "init to_int u g c (Some 0) env = Inr (cfg, env1) \<and> env ''MAX_RETRIES'' = None
        \<and> to_int ''3'' = Inr 3 \<longrightarrow> max_retries cfg = 3"
  proof
    assume a: "init to_int u g c (Some 0) env = Inr (cfg, env1) \<and> env ''MAX_RETRIES'' = None
        \<and> to_int ''3'' = Inr 3"
    then have "to_int (getenv_default env ''MAX_RETRIES'' ''3'') = Inr (max_retries cfg)"
      using init_Inr(6)[of to_int u g c "Some 0" env cfg env1] by simp
    with a show "max_retries cfg = 3" by (simp add: getenv_default_def)
  qed
  have c7: "init to_int u g c m env = Inr (cfg, env1) \<and> max_retries cfg = 0 \<longrightarrow>
        to_int ?mr = Inr 0"
  proof
    assume a: "init to_int u g c m env = Inr (cfg, env1) \<and> max_retries cfg = 0"
    then show "to_int ?mr = Inr 0"
      using init_Inr(6)[of to_int u g c m env cfg env1] unfolding mr
      by (auto split: option.splits if_splits)
  qed
  have c8: "(\<exists>cfg env1. init to_int u g c m env = Inr (cfg, env1)) \<longleftrightarrow>
        (m = None \<or> m = Some 0 \<longrightarrow> (\<exists>r. to_int ?mr = Inr r))
      \<and> (\<exists>s. s \<noteq> [] \<and> (if u = None \<or> u = Some [] then env ''POSTGRES_URL'' else u) = Some s)
      \<and> (\<exists>s. s \<noteq> [] \<and> (if g = None \<or> g = Some [] then env ''GOOGLE_API_KEY'' else g) = Some s)"
  proof
    assume "\<exists>cfg env1. init to_int u g c m env = Inr (cfg, env1)"
    then obtain cfg env1 where run: "init to_int u g c m env = Inr (cfg, env1)" by blast
    note r = init_Inr[OF run]
    have "m = None \<or> m = Some 0 \<longrightarrow> (\<exists>r. to_int ?mr = Inr r)"
      using r(6) unfolding retries by (auto split: if_splits)
    moreover have "\<exists>s. s \<noteq> [] \<and>
        (if u = None \<or> u = Some [] then env ''POSTGRES_URL'' else u) = Some s"
      using r(1) r(3) unfolding or_u by blast
    moreover have "\<exists>s. s \<noteq> [] \<and>
        (if g = None \<or> g = Some [] then env ''GOOGLE_API_KEY'' else g) = Some s"
      using r(2) r(4) unfolding or_g by blast
    ultimately show "(m = None \<or> m = Some 0 \<longrightarrow> (\<exists>r. to_int ?mr = Inr r))
      \<and> (\<exists>s. s \<noteq> [] \<and> (if u = None \<or> u = Some [] then env ''POSTGRES_URL'' else u) = Some s)
      \<and> (\<exists>s. s \<noteq> [] \<and> (if g = None \<or> g = Some [] then env ''GOOGLE_API_KEY'' else g) = Some s)"
      by blast
  next
    assume a: "(m = None \<or> m = Some 0 \<longrightarrow> (\<exists>r. to_int ?mr = Inr r))
      \<and> (\<exists>s. s \<noteq> [] \<and> (if u = None \<or> u = Some [] then env ''POSTGRES_URL'' else u) = Some s)
      \<and> (\<exists>s. s \<noteq> [] \<and> (if g = None \<or> g = Some [] then env ''GOOGLE_API_KEY'' else g) = Some s)"
    then obtain s k where s: "s \<noteq> []" "str_or u (env ''POSTGRES_URL'') = Some s"
      and k: "k \<noteq> []" "str_or g (env ''GOOGLE_API_KEY'') = Some k"
      unfolding or_u or_g by blast
    from a have "\<exists>r. (case m of Some n \<Rightarrow> if n \<noteq> 0 then Inr n
                               else to_int (getenv_default env ''MAX_RETRIES'' ''3'')
                  | None \<Rightarrow> to_int (getenv_default env ''MAX_RETRIES'' ''3'')) = Inr r"
      unfolding retries by (auto split: option.splits)
    then obtain r where "(case m of Some n \<Rightarrow> if n \<noteq> 0 then Inr n
                               else to_int (getenv_default env ''MAX_RETRIES'' ''3'')
                  | None \<Rightarrow> to_int (getenv_default env ''MAX_RETRIES'' ''3'')) = Inr r" ..
    then show "\<exists>cfg env1. init to_int u g c m env = Inr (cfg, env1)"
      using s k
      by (intro init_succeeds[where to_int = to_int and m = m and env = env and r = r
                                and u = u and g = g and s = s and k = k])
  qed
  from c1 c2 c3 c4 c5 c6 c7 c8 show ?thesis by (intro conjI)
qed

theorem init_falsy_argument_as_omitted_witness:
  "init example_int (Some []) None (Some []) (Some 0) example_environ =
     Inr (example_inserter 3, example_environ)
   \<and> example_environ ''POSTGRES_URL'' = Some (postgres_url (example_inserter 3))
   \<and> example_environ ''GOOGLE_API_KEY'' = Some (google_api_key (example_inserter 3))
   \<and> collection_name (example_inserter 3) = ''rag_ahadees''
   \<and> max_retries (example_inserter 3) = 3"
proof -
  have run: "init example_int (Some []) None (Some []) (Some 0) example_environ =
               Inr (example_inserter 3, example_environ)"
    by (simp add: init_def str_or_def getenv_def getenv_default_def example_environ_def
          example_inserter_def example_int_def fun_upd_twist)
  have unset: "example_environ ''MAX_RETRIES'' = None"
    "example_environ ''COLLECTION_NAME'' = None"
    by (simp_all add: example_environ_def)
  have three: "example_int ''3'' = Inr 3" by (simp add: example_int_def)
  from init_falsy_argument_as_omitted
         [where to_int = example_int and u = "Some []" and g = None and c = "Some []"
            and m = "Some 0" and env = example_environ
            and cfg = "example_inserter 3" and ?env1.0 = example_environ]
       run unset three
  show ?thesis by simp
qed

subsection \<open>Mapping rows to documents\<close>

lemma truth_notna_scalar: "scalar v \<Longrightarrow> truth (notna v) = Inr (\<not> isna v)"
  by (cases v) (simp_all add: notna_def)


lemma create_document_from_row_present:
  assumes "lookup r ''source'' = [s]"
      and "lookup r ''hadith_no'' = [h]" and "scalar h" and "\<not> isna h"
      and "lookup r ''chapter_no'' = [n]" and "scalar n" and "\<not> isna n"
      and "lookup r ''chapter'' = [c]" and "lookup r ''chain_indx'' = [i]"
  shows "map_sum id meta (create_document_from_row r) =
           Inr \<lparr>source = s, hadith_number = h, chapter_number = n, chapter_title = c,
                chain_index = i\<rparr>"
  using assms by (simp add: create_document_from_row_def row_get_def truth_notna_scalar)

lemma create_document_from_row_absent:
  assumes "lookup r ''source'' = []" and "lookup r ''hadith_no'' = []"
      and "lookup r ''chapter_no'' = []" and "lookup r ''chapter'' = []"
      and "lookup r ''chain_indx'' = []"
  shows "map_sum id meta (create_document_from_row r) =
           Inr \<lparr>source = StrV ''Unknown'', hadith_number = IntV 0, chapter_number = IntV 0,
                chapter_title = StrV [], chain_index = StrV []\<rparr>"
  using assms by (simp add: create_document_from_row_def row_get_def notna_def isna_def)

lemma create_document_from_row_nan_number:
  assumes "lookup r ''hadith_no'' = [NaN]" and "lookup r ''chapter_no'' = [NaN]"
  shows "map_sum id (hadith_number \<circ> meta) (create_document_from_row r) = Inr (IntV 0)"
    and "map_sum id (chapter_number \<circ> meta) (create_document_from_row r) = Inr (IntV 0)"
  using assms by (simp_all add: create_document_from_row_def row_get_def notna_def isna_def)

text \<open>
  C7. The row of an input line whose \<^verbatim>\<open>source\<close>, \<^verbatim>\<open>chapter\<close> and \<^verbatim>\<open>chain_indx\<close> cells
  are empty holds \<^verbatim>\<open>NaN\<close> under these names. The two numbers are guarded by \<^verbatim>\<open>pd.notna\<close>
  and fall back to 0; the three texts are not, and the document carries \<^verbatim>\<open>NaN\<close> where
  \<^verbatim>\<open>"Unknown"\<close> and the empty string are documented.
\<close>

theorem create_document_from_row_empty_cells:
  "map_sum id meta (create_document_from_row row_with_empty_cells) =
     Inr \<lparr>source = NaN, hadith_number = IntV 0, chapter_number = IntV 0,
          chapter_title = NaN, chain_index = NaN\<rparr>"
  by (simp add: create_document_from_row_def row_get_def lookup_def notna_def isna_def
        row_with_empty_cells_def)









subsection \<open>One batch\<close>

lemma submitted_one: "submitted [AddDocuments n b ok] = [(n, b)]"
  by (simp add: submitted_def)

lemma insert_batch_with_retry_shape:
  "\<exists>ok ext c. insert_batch_with_retry self batch num w =
       (ok, w\<lparr>add_calls := c, trace := trace w @ InsertBatch num batch # ext\<rparr>)
     \<and> retry_events num batch ok ext
     \<and> (1 \<le> max_retries self \<longrightarrow> (num, batch) \<in> set (submitted ext))"
proof (cases rule: insert_batch_with_retry_cases[where self = self and w = w])
  case none
  have "insert_batch_with_retry self batch num w =
          (False, w\<lparr>add_calls := add_calls w, trace := trace w @ InsertBatch num batch # []\<rparr>)"
    by (simp add: insert_batch_with_retry_none[OF none])
  moreover have "retry_events num batch False []"
    by (simp add: retry_events_def submitted_def)
  ultimately show ?thesis using none by (intro exI[of _ False] exI[of _ "[]"] exI[of _ "add_calls w"]) simp
next
  case (succeeds f)
  let ?q = "concat (map (backoff num batch) [0..<f])"
  have "retry_events num batch True (?q @ [AddDocuments num batch True])"
    using submitted_backoffs[of num batch "[0..<f]"]
    by (auto simp: retry_events_def quiet_backoffs submitted_append submitted_one)
  moreover have "(num, batch) \<in> set (submitted (?q @ [AddDocuments num batch True]))"
    by (simp add: submitted_append submitted_one)
  ultimately show ?thesis
    using insert_batch_with_retry_succeeds[OF succeeds, of batch num]
    by (intro exI[of _ True] exI[of _ "?q @ [AddDocuments num batch True]"]
          exI[of _ "add_calls w + f + 1"]) simp
next
  case exhausted
  let ?q = "concat (map (backoff num batch) [0..<nat (max_retries self) - 1])"
  have "list_all quiet (?q @ [AddDocuments num batch False])"
    by (simp add: quiet_backoffs)
  then have "retry_events num batch False (?q @ [AddDocuments num batch False])"
    using submitted_backoffs[of num batch "[0..<nat (max_retries self) - 1]"]
    by (auto simp: retry_events_def submitted_append submitted_one)
  moreover have "(num, batch) \<in> set (submitted (?q @ [AddDocuments num batch False]))"
    by (simp add: submitted_append submitted_one)
  ultimately show ?thesis
    using insert_batch_with_retry_exhausted[OF exhausted, of batch num]
    by (intro exI[of _ False] exI[of _ "?q @ [AddDocuments num batch False]"]
          exI[of _ "add_calls w + nat (max_retries self)"]) simp
qed

lemma observers_Cons:
  "attempted (e # tr) = (case e of InsertBatch n b \<Rightarrow> [(n, b)] | _ \<Rightarrow> []) @ attempted tr"
  "saves (e # tr) = (case e of SaveProgress p out \<Rightarrow> [p] | _ \<Rightarrow> []) @ saves tr"
  "attempts (e # tr) = (case e of AddDocuments n b ok \<Rightarrow> [ok] | _ \<Rightarrow> []) @ attempts tr"
  by (simp_all add: attempted_def saves_def attempts_def)

lemma observers_Nil: "attempted [] = []" "saves [] = []" "attempts [] = []" "successes [] = 0"
  by (simp_all add: attempted_def saves_def attempts_def successes_def)

lemma successes_Cons:
  "successes (e # tr) = (case e of AddDocuments n b ok \<Rightarrow> if ok then 1 else 0 | _ \<Rightarrow> 0) + successes tr"
  by (cases e) (simp_all add: successes_def observers_Cons)

lemma quiet_observed:
  assumes "list_all quiet q"
  shows "successes q = 0" and "attempted q = []" and "saves q = []"
proof -
  have "successes q = 0 \<and> attempted q = [] \<and> saves q = []"
    using assms
  proof (induction q)
    case Nil
    show ?case by (simp add: observers_Nil)
  next
    case (Cons e q)
    then show ?case by (cases e) (simp_all add: observers_Cons successes_Cons)
  qed
  then show "successes q = 0" and "attempted q = []" and "saves q = []" by simp_all
qed

lemma quiet_not_member:
  assumes "list_all quiet q"
  shows "SaveProgress p out \<notin> set q" and "AddDocuments n b True \<notin> set q"
  using assms by (auto simp: list_all_iff)

text \<open>Where an event of a concatenation lies.\<close>

lemma append_eq_mid:
  assumes "xs @ ys = pre @ e # post"
  shows "(\<exists>m. xs = pre @ e # m \<and> post = m @ ys) \<or> (\<exists>m. pre = xs @ m \<and> ys = m @ e # post)"
proof -
  from assms consider us where "xs = pre @ us" "us @ ys = e # post"
    | us where "xs @ us = pre" "ys = us @ e # post"
    by (auto simp: append_eq_append_conv2)
  then show ?thesis
  proof cases
    case 1
    then show ?thesis by (cases us) auto
  next
    case 2
    then show ?thesis by auto
  qed
qed

lemma append_eq_mid_absent:
  assumes "xs @ ys = pre @ e # post" and "e \<notin> set xs"
  shows "\<exists>m. pre = xs @ m \<and> ys = m @ e # post"
  using append_eq_mid[OF assms(1)] assms(2) by auto

lemma segment_observed:
  assumes "retry_events num batch ok ext" and "sv = [] \<or> (\<exists>p out. sv = [SaveProgress p out])"
  shows "successes (segment num batch ext sv) = (if ok then 1 else 0)"
    and "attempted (segment num batch ext sv) = [(num, batch)]"
    and "saves (segment num batch ext sv) = saves sv"
    and "set (submitted (segment num batch ext sv)) \<subseteq> {(num, batch)}"
proof -
  have sv: "successes sv = 0" "attempted sv = []" "submitted sv = []"
    using assms(2) by (auto simp: successes_Cons observers_Cons observers_Nil submitted_def)
  have sl: "successes [Sleep (1 / 2)] = 0" "attempted [Sleep (1 / 2)] = []"
    "saves [Sleep (1 / 2)] = []" "submitted [Sleep (1 / 2)] = []"
    by (simp_all add: successes_Cons observers_Cons observers_Nil submitted_def)
  have ext: "successes ext = (if ok then 1 else 0)" "attempted ext = []" "saves ext = []"
    using assms(1)
    by (auto simp: retry_events_def successes_append attempted_append saves_append
          quiet_observed successes_Cons observers_Cons observers_Nil split: if_splits)
  have sub: "set (submitted ext) \<subseteq> {(num, batch)}"
    using assms(1) by (simp add: retry_events_def)
  show "successes (segment num batch ext sv) = (if ok then 1 else 0)"
    by (simp add: segment_def successes_Cons successes_append sv sl ext observers_Nil)
  show "attempted (segment num batch ext sv) = [(num, batch)]"
    by (simp add: segment_def observers_Cons attempted_append sv sl ext observers_Nil)
  show "saves (segment num batch ext sv) = saves sv"
    by (simp add: segment_def observers_Cons saves_append sv sl ext observers_Nil)
  have "submitted (segment num batch ext sv) = submitted ext"
    unfolding segment_def
    by (subst append_Cons[symmetric], subst append_Nil[symmetric], unfold submitted_append)
       (simp add: sv sl, simp add: submitted_def)
  then show "set (submitted (segment num batch ext sv)) \<subseteq> {(num, batch)}"
    using sub by simp
qed

lemma mod10_int_nat: "(int n + 1) mod 10 = 0 \<longleftrightarrow> (n + 1) mod 10 = 0"
proof -
  have "int ((n + 1) mod 10) = (int n + 1) mod 10" by (simp add: zmod_int add.commute)
  then show ?thesis by (metis of_nat_eq_0_iff)
qed

lemma mid_in_set: "xs = m @ e # post \<Longrightarrow> e \<in> set xs"
  by simp

lemma retry_events_success:
  assumes "retry_events num batch True ext"
  obtains q where "ext = q @ [AddDocuments num batch True]" "list_all quiet q"
  using assms unfolding retry_events_def by auto

lemma retry_events_failure:
  assumes "retry_events num batch False ext"
  shows "list_all quiet ext"
  using assms unfolding retry_events_def by simp

lemma save_sound_extend:
  assumes old: "save_sound tr" and re: "retry_events num batch ok ext"
    and sv: "sv = (if ok \<and> (int (successes tr) + 1) mod 10 = 0
                   then [SaveProgress \<lparr>current_batch = num,
                           successful_batches = int (successes tr) + 1,
                           failed_batches = int (length (attempted tr)) - int (successes tr)\<rparr> out]
                   else [])"
  shows "save_sound (tr @ segment num batch ext sv)"
  unfolding save_sound_def
proof (intro allI impI)
  fix pre p out1 post
  assume eq: "tr @ segment num batch ext sv = pre @ SaveProgress p out1 # post"
  let ?goal = "(\<exists>q b. pre = q @ [AddDocuments (current_batch p) b True])
      \<and> (\<exists>post1. post = Sleep (1 / 2) # post1)
      \<and> successful_batches p = int (successes pre)
      \<and> 0 < successes pre \<and> successes pre mod 10 = 0
      \<and> failed_batches p = int (length (attempted pre)) - int (successes pre)"
  from append_eq_mid[OF eq] consider
      (before) m where "tr = pre @ SaveProgress p out1 # m" "post = m @ segment num batch ext sv"
    | (within) m where "pre = tr @ m" "segment num batch ext sv = m @ SaveProgress p out1 # post"
    by blast
  then show ?goal
  proof cases
    case before
    have h: "(\<exists>q b. pre = q @ [AddDocuments (current_batch p) b True])
      \<and> (\<exists>post1. m = Sleep (1 / 2) # post1)
      \<and> successful_batches p = int (successes pre)
      \<and> 0 < successes pre \<and> successes pre mod 10 = 0
      \<and> failed_batches p = int (length (attempted pre)) - int (successes pre)"
      by (rule old[unfolded save_sound_def, rule_format, OF before(1)])
    then obtain post1 where "m = Sleep (1 / 2) # post1" by (elim conjE exE)
    then have "\<exists>post2. post = Sleep (1 / 2) # post2"
      using before(2) by simp
    with h show ?thesis by simp
  next
    case within
    have absent: "SaveProgress p out1 \<notin> set (InsertBatch num batch # ext)"
    proof (cases ok)
      case True
      with re obtain q0 where "ext = q0 @ [AddDocuments num batch True]" "list_all quiet q0"
        by (auto elim: retry_events_success)
      then show ?thesis using quiet_not_member(1)[of q0 p out1] by simp
    next
      case False
      with re have "list_all quiet ext" by (simp add: retry_events_failure)
      then show ?thesis using quiet_not_member(1)[of ext p out1] by simp
    qed
    have "(InsertBatch num batch # ext) @ (sv @ [Sleep (1 / 2)]) = m @ SaveProgress p out1 # post"
      using within(2) by (simp add: segment_def)
    from append_eq_mid_absent[OF this absent] obtain m1 where
      m1: "m = (InsertBatch num batch # ext) @ m1" "sv @ [Sleep (1 / 2)] = m1 @ SaveProgress p out1 # post"
      by blast
    have cond: "ok \<and> (int (successes tr) + 1) mod 10 = 0"
    proof (rule ccontr)
      assume "\<not> ?thesis"
      then have "sv = []" using sv by simp
      with m1(2) show False by (simp add: Cons_eq_append_conv)
    qed
    then have sv1: "sv = [SaveProgress \<lparr>current_batch = num,
                           successful_batches = int (successes tr) + 1,
                           failed_batches = int (length (attempted tr)) - int (successes tr)\<rparr> out]"
      using sv by simp
    have "m1 = [] \<and> post = [Sleep (1 / 2)] \<and>
      p = \<lparr>current_batch = num, successful_batches = int (successes tr) + 1,
            failed_batches = int (length (attempted tr)) - int (successes tr)\<rparr>"
    proof (cases m1)
      case Nil
      with m1(2) show ?thesis unfolding sv1 by simp
    next
      case (Cons e m2)
      with m1(2) have "[Sleep (1 / 2)] = m2 @ SaveProgress p out1 # post" unfolding sv1 by simp
      then show ?thesis by (cases m2) simp_all
    qed
    then have parts: "m1 = []" "post = [Sleep (1 / 2)]"
      "p = \<lparr>current_batch = num, successful_batches = int (successes tr) + 1,
            failed_batches = int (length (attempted tr)) - int (successes tr)\<rparr>"
      by simp_all
    from re cond obtain q where q: "ext = q @ [AddDocuments num batch True]" "list_all quiet q"
      by (auto elim: retry_events_success)
    have pre: "pre = (tr @ InsertBatch num batch # q) @ [AddDocuments num batch True]"
      using within(1) m1(1) parts(1) q(1) by simp
    have succ: "successes pre = successes tr + 1"
      unfolding pre
      by (simp add: successes_append successes_Cons quiet_observed[OF q(2)] observers_Nil)
    have att: "attempted pre = attempted tr @ [(num, batch)]"
      unfolding pre
      by (simp add: attempted_append observers_Cons quiet_observed[OF q(2)] observers_Nil)
    have md: "successes pre mod 10 = 0"
      using cond succ by (simp add: mod10_int_nat)
    have g1: "\<exists>q b. pre = q @ [AddDocuments (current_batch p) b True]"
      using pre parts(3) by (intro exI[of _ "tr @ InsertBatch num batch # q"] exI[of _ batch]) simp
    have g2: "\<exists>post1. post = Sleep (1 / 2) # post1" using parts(2) by simp
    have g3: "successful_batches p = int (successes pre)" using parts(3) succ by simp
    have g4: "0 < successes pre" using succ by simp
    have g6: "failed_batches p = int (length (attempted pre)) - int (successes pre)"
      using parts(3) succ att by simp
    from g1 g2 g3 g4 md g6 show ?thesis by (intro conjI)
  qed
qed

lemma save_complete_extend:
  assumes old: "save_complete tr" and re: "retry_events num batch ok ext"
    and sv: "sv = (if ok \<and> (int (successes tr) + 1) mod 10 = 0 then [SaveProgress p0 out] else [])"
  shows "save_complete (tr @ segment num batch ext sv)"
  unfolding save_complete_def
proof (intro allI impI)
  fix pre n b post
  assume "tr @ segment num batch ext sv = pre @ AddDocuments n b True # post
            \<and> (successes pre + 1) mod 10 = 0"
  then have eq: "tr @ segment num batch ext sv = pre @ AddDocuments n b True # post"
    and md: "(successes pre + 1) mod 10 = 0" by simp_all
  let ?goal = "\<exists>p out1 post1. post = SaveProgress p out1 # post1"
  from append_eq_mid[OF eq] consider
      (before) m where "tr = pre @ AddDocuments n b True # m" "post = m @ segment num batch ext sv"
    | (within) m where "pre = tr @ m" "segment num batch ext sv = m @ AddDocuments n b True # post"
    by blast
  then show ?goal
  proof cases
    case before
    have "\<exists>p out1 post1. m = SaveProgress p out1 # post1"
      by (rule old[unfolded save_complete_def, rule_format, OF conjI[OF before(1) md]])
    then show ?thesis using before(2) by auto
  next
    case within
    have svq: "AddDocuments n b True \<notin> set (sv @ [Sleep (1 / 2)])"
      using sv by auto
    show ?thesis
    proof (cases ok)
      case False
      with re have "list_all quiet ext" by (simp add: retry_events_failure)
      then have "AddDocuments n b True \<notin> set (segment num batch ext sv)"
        using svq quiet_not_member(2)[of ext n b] by (simp add: segment_def)
      moreover have "AddDocuments n b True \<in> set (segment num batch ext sv)"
        using within(2) by (rule mid_in_set)
      ultimately show ?thesis by contradiction
    next
      case True
      with re obtain q where q: "ext = q @ [AddDocuments num batch True]" "list_all quiet q"
        by (auto elim: retry_events_success)
      have absent: "AddDocuments n b True \<notin> set (InsertBatch num batch # q)"
        using quiet_not_member(2)[OF q(2), of n b] by simp
      have "(InsertBatch num batch # q) @ (AddDocuments num batch True # sv @ [Sleep (1 / 2)]) =
               m @ AddDocuments n b True # post"
        using within(2) q(1) by (simp add: segment_def)
      from append_eq_mid_absent[OF this absent] obtain m1 where
        m1: "m = (InsertBatch num batch # q) @ m1"
            "AddDocuments num batch True # sv @ [Sleep (1 / 2)] = m1 @ AddDocuments n b True # post"
        by blast
      have "m1 = []"
      proof (cases m1)
        case Nil
        then show ?thesis .
      next
        case (Cons e m2)
        with m1(2) have "sv @ [Sleep (1 / 2)] = m2 @ AddDocuments n b True # post" by simp
        then have "AddDocuments n b True \<in> set (sv @ [Sleep (1 / 2)])"
          by (rule mid_in_set)
        with svq show ?thesis by contradiction
      qed
      with m1 have post: "post = sv @ [Sleep (1 / 2)]" and m: "m = InsertBatch num batch # q"
        by simp_all
      have "successes pre = successes tr"
        unfolding within(1) m
        by (simp add: successes_append successes_Cons quiet_observed[OF q(2)])
      with md have "(int (successes tr) + 1) mod 10 = 0"
        by (simp add: mod10_int_nat)
      with True sv have "sv = [SaveProgress p0 out]" by simp
      with post show ?thesis by simp
    qed
  qed
qed

subsection \<open>The batch loop\<close>

lemma sleep_fields:
  "trace (sleep t w) = trace w @ [Sleep t]"
  "add_ok (sleep t w) = add_ok w" "add_calls (sleep t w) = add_calls w"
  "write_outcomes (sleep t w) = write_outcomes w" "write_calls (sleep t w) = write_calls w"
  "remove_ok (sleep t w) = remove_ok w" "progress_file (sleep t w) = progress_file w"
  by (simp_all add: sleep_def emit_def)

lemma save_progress_fields:
  "trace (save_progress n s f w) =
     trace w @ [SaveProgress \<lparr>current_batch = n, successful_batches = s, failed_batches = f\<rparr>
                  (write_outcomes w (write_calls w))]"
  "add_ok (save_progress n s f w) = add_ok w"
  "write_outcomes (save_progress n s f w) = write_outcomes w"
  "remove_ok (save_progress n s f w) = remove_ok w"
  "progress_file (save_progress n s f w) =
     (case write_outcomes w (write_calls w) of
        Written \<Rightarrow> Some (Checkpoint \<lparr>current_batch = n, successful_batches = s,
                                      failed_batches = f\<rparr>)
      | OpenRaises \<Rightarrow> progress_file w
      | DumpRaises \<Rightarrow> Some Corrupt)"
  by (simp_all add: save_progress_def emit_def Let_def split: write_outcome.splits)

lemma batch_body_step:
  "\<exists>ok ext sv w2.
     batch_body self documents batch_size i (s, f, w) =
       (if ok then s + 1 else s, if ok then f else f + 1, w2)
   \<and> retry_events (i div batch_size + 1) (py_slice documents i (i + batch_size)) ok ext
   \<and> (1 \<le> max_retries self \<longrightarrow>
        (i div batch_size + 1, py_slice documents i (i + batch_size)) \<in> set (submitted ext))
   \<and> sv = (if ok \<and> (s + 1) mod 10 = 0
            then [SaveProgress \<lparr>current_batch = i div batch_size + 1,
                    successful_batches = s + 1, failed_batches = f\<rparr>
                    (write_outcomes w (write_calls w))]
            else [])
   \<and> trace w2 = trace w @
        segment (i div batch_size + 1) (py_slice documents i (i + batch_size)) ext sv
   \<and> add_ok w2 = add_ok w \<and> write_outcomes w2 = write_outcomes w
   \<and> remove_ok w2 = remove_ok w
   \<and> progress_file w2 =
        (if sv = [] then progress_file w
         else case write_outcomes w (write_calls w) of
                Written \<Rightarrow> Some (Checkpoint \<lparr>current_batch = i div batch_size + 1,
                                  successful_batches = s + 1, failed_batches = f\<rparr>)
              | OpenRaises \<Rightarrow> progress_file w
              | DumpRaises \<Rightarrow> Some Corrupt)"
proof -
  let ?num = "i div batch_size + 1"
  let ?batch = "py_slice documents i (i + batch_size)"
  from insert_batch_with_retry_shape[of self ?batch ?num w]
  obtain ok ext c where
    run: "insert_batch_with_retry self ?batch ?num w =
            (ok, w\<lparr>add_calls := c, trace := trace w @ InsertBatch ?num ?batch # ext\<rparr>)"
    and re: "retry_events ?num ?batch ok ext"
    and sub: "1 \<le> max_retries self \<longrightarrow> (?num, ?batch) \<in> set (submitted ext)"
    by blast
  let ?w1 = "w\<lparr>add_calls := c, trace := trace w @ InsertBatch ?num ?batch # ext\<rparr>"
  show ?thesis
  proof (cases "ok \<and> (s + 1) mod 10 = 0")
    case True
    let ?sv = "[SaveProgress \<lparr>current_batch = ?num, successful_batches = s + 1,
                  failed_batches = f\<rparr> (write_outcomes w (write_calls w))]"
    let ?w2 = "sleep (1 / 2) (save_progress ?num (s + 1) f ?w1)"
    have body: "batch_body self documents batch_size i (s, f, w) = (s + 1, f, ?w2)"
      using True by (simp add: batch_body_def run Let_def)
    have "trace ?w2 = trace w @ segment ?num ?batch ext ?sv"
      by (simp add: sleep_fields save_progress_fields segment_def)
    moreover have "add_ok ?w2 = add_ok w" "write_outcomes ?w2 = write_outcomes w"
      "remove_ok ?w2 = remove_ok w"
      by (simp_all add: sleep_fields save_progress_fields)
    moreover have "progress_file ?w2 =
        (case write_outcomes w (write_calls w) of
                Written \<Rightarrow> Some (Checkpoint \<lparr>current_batch = ?num,
                                  successful_batches = s + 1, failed_batches = f\<rparr>)
              | OpenRaises \<Rightarrow> progress_file w
              | DumpRaises \<Rightarrow> Some Corrupt)"
      by (simp add: sleep_fields save_progress_fields split: write_outcome.splits)
    ultimately show ?thesis
      using True body re sub
      by (intro exI[of _ ok] exI[of _ ext] exI[of _ ?sv] exI[of _ ?w2]) simp
  next
    case False
    let ?w2 = "sleep (1 / 2) ?w1"
    have body: "batch_body self documents batch_size i (s, f, w) =
                  (if ok then s + 1 else s, if ok then f else f + 1, ?w2)"
      using False by (cases ok) (simp_all add: batch_body_def run Let_def)
    have "trace ?w2 = trace w @ segment ?num ?batch ext []"
      by (simp add: sleep_fields segment_def)
    moreover have "add_ok ?w2 = add_ok w" "write_outcomes ?w2 = write_outcomes w"
      "remove_ok ?w2 = remove_ok w" "progress_file ?w2 = progress_file w"
      by (simp_all add: sleep_fields)
    ultimately show ?thesis
      using False body re sub
      by (intro exI[of _ ok] exI[of _ ext] exI[of _ "[]"] exI[of _ ?w2]) simp
  qed
qed

lemma loop_inv_start: "loop_inv w [] (0, 0, w)"
  by (simp add: loop_inv_def observers_Nil save_sound_def save_complete_def)

lemma batch_body_inv:
  assumes inv: "loop_inv w tr st"
  shows "\<exists>seg. loop_inv w (tr @ seg) (batch_body self documents batch_size i st)
     \<and> attempted seg = [(i div batch_size + 1, py_slice documents i (i + batch_size))]
     \<and> set (submitted seg) \<subseteq> {(i div batch_size + 1, py_slice documents i (i + batch_size))}
     \<and> (1 \<le> max_retries self \<longrightarrow>
          (i div batch_size + 1, py_slice documents i (i + batch_size)) \<in> set (submitted seg))"
proof -
  let ?num = "i div batch_size + 1"
  let ?batch = "py_slice documents i (i + batch_size)"
  obtain s f w1 where st: "st = (s, f, w1)" by (cases st)
  from inv have tr: "trace w1 = trace w @ tr"
    and s: "s = int (successes tr)"
    and f: "f = int (length (attempted tr)) - int (successes tr)"
    and sound: "save_sound tr" and complete: "save_complete tr"
    and frame: "add_ok w1 = add_ok w" "write_outcomes w1 = write_outcomes w"
        "remove_ok w1 = remove_ok w"
    and file0: "saves tr = [] \<longrightarrow> progress_file w1 = progress_file w"
    and file1: "(\<forall>n. write_outcomes w n = Written) \<and> saves tr \<noteq> []
           \<longrightarrow> progress_file w1 = Some (Checkpoint (last (saves tr)))"
    unfolding loop_inv_def st by simp_all
  from batch_body_step[of self documents batch_size i s f w1]
  obtain ok ext sv w2 where
    body: "batch_body self documents batch_size i (s, f, w1) =
             (if ok then s + 1 else s, if ok then f else f + 1, w2)"
    and re: "retry_events ?num ?batch ok ext"
    and sub: "1 \<le> max_retries self \<longrightarrow> (?num, ?batch) \<in> set (submitted ext)"
    and sv: "sv = (if ok \<and> (s + 1) mod 10 = 0
            then [SaveProgress \<lparr>current_batch = ?num,
                    successful_batches = s + 1, failed_batches = f\<rparr>
                    (write_outcomes w1 (write_calls w1))]
            else [])"
    and tr2: "trace w2 = trace w1 @ segment ?num ?batch ext sv"
    and frame2: "add_ok w2 = add_ok w1" "write_outcomes w2 = write_outcomes w1"
        "remove_ok w2 = remove_ok w1"
    and file2: "progress_file w2 =
        (if sv = [] then progress_file w1
         else case write_outcomes w1 (write_calls w1) of
                Written \<Rightarrow> Some (Checkpoint \<lparr>current_batch = ?num,
                                  successful_batches = s + 1, failed_batches = f\<rparr>)
              | OpenRaises \<Rightarrow> progress_file w1
              | DumpRaises \<Rightarrow> Some Corrupt)"
    by blast
  let ?seg = "segment ?num ?batch ext sv"
  have svshape: "sv = [] \<or> (\<exists>p out. sv = [SaveProgress p out])"
    using sv by simp
  note obs = segment_observed[OF re svshape]
  have sv': "sv = (if ok \<and> (int (successes tr) + 1) mod 10 = 0
                   then [SaveProgress \<lparr>current_batch = ?num,
                           successful_batches = int (successes tr) + 1,
                           failed_batches = int (length (attempted tr)) - int (successes tr)\<rparr>
                           (write_outcomes w1 (write_calls w1))]
                   else [])"
    using sv s f by simp
  have sound2: "save_sound (tr @ ?seg)"
    by (rule save_sound_extend[OF sound re sv'])
  have complete2: "save_complete (tr @ ?seg)"
    by (rule save_complete_extend[OF complete re sv'])
  have succ2: "successes (tr @ ?seg) = successes tr + (if ok then 1 else 0)"
    by (simp add: successes_append obs(1))
  have att2: "attempted (tr @ ?seg) = attempted tr @ [(?num, ?batch)]"
    by (simp add: attempted_append obs(2))
  have saves2: "saves (tr @ ?seg) = saves tr @ saves sv"
    by (simp add: saves_append obs(3))
  have c1: "(if ok then s + 1 else s) = int (successes (tr @ ?seg))"
    using s succ2 by simp
  have c2: "(if ok then f else f + 1) =
              int (length (attempted (tr @ ?seg))) - int (successes (tr @ ?seg))"
    using f succ2 att2 by simp
  have f0: "saves (tr @ ?seg) = [] \<longrightarrow> progress_file w2 = progress_file w"
  proof
    assume e: "saves (tr @ ?seg) = []"
    then have "saves tr = []" and "saves sv = []" using saves2 by simp_all
    moreover from this(2) have "sv = []"
      using svshape by (auto simp: observers_Cons)
    ultimately show "progress_file w2 = progress_file w" using file0 file2 by simp
  qed
  have f1: "(\<forall>n. write_outcomes w n = Written) \<and> saves (tr @ ?seg) \<noteq> []
           \<longrightarrow> progress_file w2 = Some (Checkpoint (last (saves (tr @ ?seg))))"
  proof
    assume a: "(\<forall>n. write_outcomes w n = Written) \<and> saves (tr @ ?seg) \<noteq> []"
    show "progress_file w2 = Some (Checkpoint (last (saves (tr @ ?seg))))"
    proof (cases "sv = []")
      case True
      then have "saves (tr @ ?seg) = saves tr" using saves2 by (simp add: observers_Nil)
      then show ?thesis using a file1 file2 True by simp
    next
      case False
      then have sv1: "sv = [SaveProgress \<lparr>current_batch = ?num,
                    successful_batches = s + 1, failed_batches = f\<rparr>
                    (write_outcomes w1 (write_calls w1))]"
        using sv by (simp split: if_splits)
      have "saves sv = [\<lparr>current_batch = ?num, successful_batches = s + 1, failed_batches = f\<rparr>]"
        by (subst sv1) (simp add: observers_Cons observers_Nil)
      then have "last (saves (tr @ ?seg)) =
                   \<lparr>current_batch = ?num, successful_batches = s + 1, failed_batches = f\<rparr>"
        using saves2 by simp
      moreover have "write_outcomes w1 (write_calls w1) = Written"
        using a frame(2) by simp
      ultimately show ?thesis using file2 False by simp
    qed
  qed
  have "loop_inv w (tr @ ?seg) (batch_body self documents batch_size i st)"
    unfolding loop_inv_def st body
    using tr tr2 c1 c2 sound2 complete2 frame frame2 f0 f1 by simp
  moreover have "set (submitted ?seg) \<subseteq> {(?num, ?batch)}" by (rule obs(4))
  moreover have "1 \<le> max_retries self \<longrightarrow> (?num, ?batch) \<in> set (submitted ?seg)"
  proof -
    have "submitted ?seg = submitted [InsertBatch ?num ?batch] @ submitted ext
                             @ submitted (sv @ [Sleep (1 / 2)])"
      unfolding segment_def
      by (metis append_Cons append_Nil submitted_append)
    then show ?thesis using sub by simp
  qed
  ultimately show ?thesis using obs(2) by blast
qed

lemma batch_loop_inv:
  assumes "loop_inv w tr st"
  shows "\<exists>ext. loop_inv w (tr @ ext) (batch_loop self documents batch_size idx st)
     \<and> attempted ext =
         map (\<lambda>i. (i div batch_size + 1, py_slice documents i (i + batch_size))) idx
     \<and> set (submitted ext) \<subseteq>
         set (map (\<lambda>i. (i div batch_size + 1, py_slice documents i (i + batch_size))) idx)
     \<and> (1 \<le> max_retries self \<longrightarrow>
         set (map (\<lambda>i. (i div batch_size + 1, py_slice documents i (i + batch_size))) idx)
           \<subseteq> set (submitted ext))"
  using assms
proof (induction idx arbitrary: tr st)
  case Nil
  then show ?case
    by (intro exI[of _ "[]"]) (simp add: observers_Nil submitted_def)
next
  case (Cons i idx)
  let ?b = "\<lambda>i. (i div batch_size + 1, py_slice documents i (i + batch_size))"
  from batch_body_inv[OF Cons.prems, of self documents batch_size i]
  obtain seg where
    seg: "loop_inv w (tr @ seg) (batch_body self documents batch_size i st)"
      "attempted seg = [?b i]" "set (submitted seg) \<subseteq> {?b i}"
      "1 \<le> max_retries self \<longrightarrow> ?b i \<in> set (submitted seg)"
    by blast
  from Cons.IH[OF seg(1)]
  obtain ext where
    ext: "loop_inv w ((tr @ seg) @ ext)
            (batch_loop self documents batch_size idx (batch_body self documents batch_size i st))"
      "attempted ext = map ?b idx" "set (submitted ext) \<subseteq> set (map ?b idx)"
      "1 \<le> max_retries self \<longrightarrow> set (map ?b idx) \<subseteq> set (submitted ext)"
    by blast
  have "loop_inv w (tr @ seg @ ext) (batch_loop self documents batch_size (i # idx) st)"
    using ext(1) by simp
  moreover have "attempted (seg @ ext) = map ?b (i # idx)"
    using seg(2) ext(2) by (simp add: attempted_append)
  moreover have "set (submitted (seg @ ext)) \<subseteq> set (map ?b (i # idx))"
    using seg(3) ext(3) by (auto simp: submitted_append)
  moreover have "1 \<le> max_retries self \<longrightarrow> set (map ?b (i # idx)) \<subseteq> set (submitted (seg @ ext))"
    using seg(4) ext(4) by (auto simp: submitted_append)
  ultimately show ?case by blast
qed

subsection \<open>The batches of a list\<close>

lemma py_slice_nonneg: "py_slice xs (int i) (int i + int b) = take b (drop i xs)"
proof -
  have bounds: "slice_bound (length xs) (int i) = min i (length xs)"
    "slice_bound (length xs) (int i + int b) = min (i + b) (length xs)"
    by (simp_all add: slice_bound_def nat_add_distrib)
  show ?thesis
  proof (cases "i \<le> length xs")
    case True
    then have "min (i + b) (length xs) - min i (length xs) = min b (length (drop i xs))"
      by (auto simp: min_def)
    moreover have "take (min b (length (drop i xs))) (drop i xs) = take b (drop i xs)"
      by (simp add: min_def)
    ultimately show ?thesis using True by (simp add: py_slice_def bounds min_absorb1)
  next
    case False
    then show ?thesis by (simp add: py_slice_def bounds)
  qed
qed

lemma nat_batches:
  fixes b kk n :: nat
  assumes "0 < b" and "kk * b < n"
  shows "(n - kk * b - 1) div b + 1 = (n + b - 1) div b - kk"
proof -
  define m where "m = kk * b"
  define x where "x = n - m - 1"
  have "m < n" using assms(2) by (simp add: m_def)
  then have "n + b - 1 = x + b + m" using assms(1) unfolding x_def by arith
  then have "n + b - 1 = x + (1 + kk) * b" by (simp add: m_def)
  moreover have "(x + (1 + kk) * b) div b = (1 + kk) + x div b"
    using assms(1) by (intro div_mult_self1) simp
  ultimately have "(n + b - 1) div b = x div b + (1 + kk)" by simp
  then show ?thesis by (simp add: x_def m_def)
qed

lemma nat_batches_none:
  fixes b kk n :: nat
  assumes "0 < b" and "n \<le> kk * b"
  shows "(n + b - 1) div b \<le> kk"
proof -
  define m where "m = kk * b"
  have "n \<le> m" using assms(2) by (simp add: m_def)
  then have "n + b - 1 < m + b" using assms(1) by arith
  then have "n + b - 1 < (kk + 1) * b" by (simp add: m_def)
  then have "(n + b - 1) div b < kk + 1" using assms(1)
    by (simp only: less_mult_imp_div_less)
  then show ?thesis by simp
qed

lemma int_batches:
  fixes b kk n :: nat
  assumes "0 < b" and "kk * b < n"
  shows "nat ((int n - int kk * int b - 1) div int b + 1) = (n - kk * b - 1) div b + 1"
proof -
  have "int n - int kk * int b - 1 = int (n - kk * b - 1)"
    using assms by (simp add: of_nat_diff)
  then have "(int n - int kk * int b - 1) div int b + 1 = int ((n - kk * b - 1) div b + 1)"
    by (simp add: zdiv_int)
  then show ?thesis by (simp only: nat_int)
qed

lemma range_len_batches:
  fixes b kk n :: nat
  assumes "0 < b"
  shows "range_len (int kk * int b) (int n) (int b) = (n + b - 1) div b - kk"
proof (cases "kk * b < n")
  case True
  then have "int kk * int b < int n" by (metis of_nat_less_iff of_nat_mult)
  then have "range_len (int kk * int b) (int n) (int b) =
               nat ((int n - int kk * int b - 1) div int b + 1)"
    using assms by (simp add: range_len_def)
  then show ?thesis using int_batches[OF assms True] nat_batches[OF assms True] by simp
next
  case False
  then have "\<not> int kk * int b < int n" by (metis of_nat_less_iff of_nat_mult)
  then have "range_len (int kk * int b) (int n) (int b) = 0"
    using assms by (simp add: range_len_def)
  moreover have "(n + b - 1) div b \<le> kk"
    using False by (intro nat_batches_none[OF assms]) simp
  ultimately show ?thesis by simp
qed

lemma batches_closed_form:
  assumes "1 \<le> batch_size" and "0 \<le> k"
  shows "map (\<lambda>i. (i div batch_size + 1, py_slice documents i (i + batch_size)))
           (py_range (k * batch_size) (int (length documents)) batch_size) =
         map (\<lambda>j. (int j + 1, take (nat batch_size) (drop (j * nat batch_size) documents)))
           [nat k..<(length documents + nat batch_size - 1) div nat batch_size]"
proof -
  define b where "b = nat batch_size"
  define kk where "kk = nat k"
  define total where "total = (length documents + b - 1) div b"
  have B: "batch_size = int b" and K: "k = int kk" and b: "0 < b"
    using assms by (simp_all add: b_def kk_def)
  have len: "range_len (int kk * int b) (int (length documents)) (int b) = total - kk"
    unfolding total_def by (rule range_len_batches[OF b])
  have elem: "(\<lambda>i. (i div int b + 1, py_slice documents i (i + int b)))
                (int kk * int b + int j * int b) =
              (int (kk + j) + 1, take b (drop ((kk + j) * b) documents))" for j
  proof -
    have i: "int kk * int b + int j * int b = int ((kk + j) * b)"
      by (simp add: algebra_simps)
    have d: "int ((kk + j) * b) div int b = int (kk + j)"
      using b by (simp add: zdiv_int[symmetric] del: of_nat_mult of_nat_add)
    have s: "py_slice documents (int ((kk + j) * b)) (int ((kk + j) * b) + int b) =
               take b (drop ((kk + j) * b) documents)"
      by (rule py_slice_nonneg)
    show ?thesis unfolding i d s ..
  qed
  have "[kk..<total] = map (\<lambda>j. kk + j) [0..<total - kk]"
  proof (cases "kk \<le> total")
    case True
    then show ?thesis using map_add_upt[of kk "total - kk"] by (simp add: add.commute)
  next
    case False
    then show ?thesis by simp
  qed
  then have "map (\<lambda>j. (int j + 1, take b (drop (j * b) documents))) [kk..<total] =
             map (\<lambda>j. (int (kk + j) + 1, take b (drop ((kk + j) * b) documents))) [0..<total - kk]"
    by (simp add: comp_def)
  moreover have "map (\<lambda>i. (i div int b + 1, py_slice documents i (i + int b)))
           (py_range (int kk * int b) (int (length documents)) (int b)) =
             map (\<lambda>j. (int (kk + j) + 1, take b (drop ((kk + j) * b) documents))) [0..<total - kk]"
    unfolding py_range_def len map_map comp_def elem ..
  ultimately show ?thesis
    unfolding B K by (simp add: b_def[symmetric] total_def)
qed

subsection \<open>Batched insertion\<close>

lemma insert_chunks_batch_run:
  assumes "batch_size \<noteq> 0"
  shows "\<exists>s f w1. insert_chunks_batch self documents batch_size resume_from w = Inr (s, f, w1)
     \<and> loop_inv w (since w w1) (s, f, w1)
     \<and> attempted (since w w1) =
         map (\<lambda>i. (i div batch_size + 1, py_slice documents i (i + batch_size)))
           (py_range (resume_from * batch_size) (int (length documents)) batch_size)
     \<and> set (submitted (since w w1)) \<subseteq> set (attempted (since w w1))
     \<and> (1 \<le> max_retries self \<longrightarrow> set (attempted (since w w1)) \<subseteq> set (submitted (since w w1)))"
proof -
  let ?idx = "py_range (resume_from * batch_size) (int (length documents)) batch_size"
  let ?b = "\<lambda>i. (i div batch_size + 1, py_slice documents i (i + batch_size))"
  from batch_loop_inv[OF loop_inv_start, of w self documents batch_size ?idx]
  obtain ext where
    ext: "loop_inv w ([] @ ext) (batch_loop self documents batch_size ?idx (0, 0, w))"
      "attempted ext = map ?b ?idx" "set (submitted ext) \<subseteq> set (map ?b ?idx)"
      "1 \<le> max_retries self \<longrightarrow> set (map ?b ?idx) \<subseteq> set (submitted ext)"
    by blast
  obtain s f w1 where res: "batch_loop self documents batch_size ?idx (0, 0, w) = (s, f, w1)"
    by (cases "batch_loop self documents batch_size ?idx (0, 0, w)")
  from ext(1) have tr: "trace w1 = trace w @ ext"
    unfolding res loop_inv_def by simp
  then have since: "since w w1 = ext" by (simp add: since_def)
  have run: "insert_chunks_batch self documents batch_size resume_from w = Inr (s, f, w1)"
    using assms res by (simp add: insert_chunks_batch_def)
  show ?thesis
    using run ext res unfolding since[symmetric] by simp
qed

lemma insert_chunks_batch_zero:
  "insert_chunks_batch self documents 0 resume_from w = Inl ZeroDivisionError"
  by (simp add: insert_chunks_batch_def)

lemma insert_batch_with_retry_fails:
  assumes "\<forall>j<nat (max_retries self). \<not> add_ok w (add_calls w + j)"
  shows "\<exists>c ext. insert_batch_with_retry self batch num w =
           (False, w\<lparr>add_calls := c, trace := trace w @ ext\<rparr>)"
proof (cases "max_retries self \<le> 0")
  case True
  show ?thesis
    by (intro exI[of _ "add_calls w"] exI[of _ "[InsertBatch num batch]"])
       (simp add: insert_batch_with_retry_none[OF True])
next
  case False
  then have "1 \<le> max_retries self" by simp
  from insert_batch_with_retry_exhausted[OF assms this, of batch num]
  show ?thesis by blast
qed

lemma batch_body_fails:
  assumes "\<forall>j<nat (max_retries self). \<not> add_ok w (add_calls w + j)"
  shows "\<exists>w2. batch_body self documents batch_size i (s, f, w) = (s, f + 1, w2)
           \<and> add_ok w2 = add_ok w"
proof -
  from insert_batch_with_retry_fails[OF assms] obtain c ext where
    "insert_batch_with_retry self (py_slice documents i (i + batch_size))
       (i div batch_size + 1) w = (False, w\<lparr>add_calls := c, trace := trace w @ ext\<rparr>)"
    by blast
  then show ?thesis by (simp add: batch_body_def sleep_fields)
qed

lemma batch_loop_all_fail:
  assumes "\<forall>n. \<not> add_ok w n"
  shows "\<exists>w2. batch_loop self documents batch_size idx (s, f, w) = (s, f + int (length idx), w2)"
  using assms
proof (induction idx arbitrary: f w)
  case Nil
  show ?case by simp
next
  case (Cons i idx)
  from Cons.prems have "\<forall>j<nat (max_retries self). \<not> add_ok w (add_calls w + j)" by simp
  from batch_body_fails[OF this, of documents batch_size i s f] obtain w2 where
    w2: "batch_body self documents batch_size i (s, f, w) = (s, f + 1, w2)" "add_ok w2 = add_ok w"
    by blast
  from Cons.prems w2(2) have "\<forall>n. \<not> add_ok w2 n" by simp
  from Cons.IH[OF this, of "f + 1"] obtain w3 where
    "batch_loop self documents batch_size idx (s, f + 1, w2) = (s, f + 1 + int (length idx), w3)"
    by blast
  then show ?case using w2(1) by simp
qed

text \<open>
  C4. Whatever the store answers, \<^verbatim>\<open>insert_chunks_batch\<close> with a non-zero batch size
  returns normally and hands every batch of its range to the retry routine; the
  successful counter counts the successful store calls and the failed counter the
  other batches. A batch whose attempts all raise adds one to the failed counter and
  the loop goes on with the next index; when every store call raises, every batch is
  counted as failed.
\<close>

theorem insert_chunks_batch_failure_not_fatal:
  assumes "batch_size \<noteq> 0"
  shows "\<exists>s f w1. insert_chunks_batch self documents batch_size resume_from w = Inr (s, f, w1)
     \<and> attempted (since w w1) =
         map (\<lambda>i. (i div batch_size + 1, py_slice documents i (i + batch_size)))
           (py_range (resume_from * batch_size) (int (length documents)) batch_size)
     \<and> s = int (successes (since w w1))
     \<and> f = int (length (attempted (since w w1))) - int (successes (since w w1))
     \<and> ((\<forall>j<nat (max_retries self). \<not> add_ok w (add_calls w + j)) \<longrightarrow>
          (\<exists>w2. batch_loop self documents batch_size (i # rest) (s0, f0, w) =
                  batch_loop self documents batch_size rest (s0, f0 + 1, w2)))
     \<and> ((\<forall>n. \<not> add_ok w n) \<longrightarrow>
          s = 0 \<and> f = int (length (py_range (resume_from * batch_size)
                                       (int (length documents)) batch_size)))"
proof -
  let ?idx = "py_range (resume_from * batch_size) (int (length documents)) batch_size"
  from insert_chunks_batch_run[OF assms, of self documents resume_from w]
  obtain s f w1 where
    run: "insert_chunks_batch self documents batch_size resume_from w = Inr (s, f, w1)"
    and inv: "loop_inv w (since w w1) (s, f, w1)"
    and att: "attempted (since w w1) =
         map (\<lambda>i. (i div batch_size + 1, py_slice documents i (i + batch_size))) ?idx"
    by blast
  from inv have counts: "s = int (successes (since w w1))"
    "f = int (length (attempted (since w w1))) - int (successes (since w w1))"
    unfolding loop_inv_def by simp_all
  have step: "(\<forall>j<nat (max_retries self). \<not> add_ok w (add_calls w + j)) \<longrightarrow>
          (\<exists>w2. batch_loop self documents batch_size (i # rest) (s0, f0, w) =
                  batch_loop self documents batch_size rest (s0, f0 + 1, w2))"
  proof
    assume "\<forall>j<nat (max_retries self). \<not> add_ok w (add_calls w + j)"
    from batch_body_fails[OF this, of documents batch_size i s0 f0]
    show "\<exists>w2. batch_loop self documents batch_size (i # rest) (s0, f0, w) =
                  batch_loop self documents batch_size rest (s0, f0 + 1, w2)"
      by auto
  qed
  have all: "(\<forall>n. \<not> add_ok w n) \<longrightarrow> s = 0 \<and> f = int (length ?idx)"
  proof
    assume "\<forall>n. \<not> add_ok w n"
    from batch_loop_all_fail[OF this, of self documents batch_size ?idx 0 0]
    obtain w2 where "batch_loop self documents batch_size ?idx (0, 0, w) =
                       (0, 0 + int (length ?idx), w2)" by blast
    with run assms show "s = 0 \<and> f = int (length ?idx)"
      by (simp add: insert_chunks_batch_def)
  qed
  from run att counts step all show ?thesis by blast
qed

theorem insert_chunks_batch_failure_not_fatal_witness:
  "\<exists>s f w1. insert_chunks_batch (example_inserter 3) [''a'', ''b'', ''c''] 2 0
               (example_world (always False) Written True None) = Inr (s, f, w1)
     \<and> attempted (since (example_world (always False) Written True None) w1) =
         [(1, [''a'', ''b'']), (2, [''c''])]
     \<and> s = 0 \<and> f = 2"
proof -
  let ?w = "example_world (always False) Written True None :: string world"
  have idx: "py_range (0 * 2) (int (length [''a'', ''b'', ''c''])) 2 = [0, 2]"
    by (simp add: py_range_def range_len_def upt_conv_Cons)
  have sl: "py_slice [''a'', ''b'', ''c''] 0 (0 + 2) = [''a'', ''b'']"
    "py_slice [''a'', ''b'', ''c''] 2 (2 + 2) = [''c'']"
    by (simp_all add: py_slice_def slice_bound_def)
  have fail: "\<forall>n. \<not> add_ok ?w n"
    by (simp add: example_world_def always_def)
  have nz: "(2::int) \<noteq> 0" by simp
  from insert_chunks_batch_failure_not_fatal
         [OF nz, where self = "example_inserter 3"
            and documents = "[''a'', ''b'', ''c'']" and resume_from = 0
            and w = ?w and i = 0 and rest = "[]" and ?s0.0 = 0 and ?f0.0 = 0]
  obtain s f w1 where
    run: "insert_chunks_batch (example_inserter 3) [''a'', ''b'', ''c''] 2 0 ?w = Inr (s, f, w1)"
    and att: "attempted (since ?w w1) =
         map (\<lambda>i. (i div 2 + 1, py_slice [''a'', ''b'', ''c''] i (i + 2)))
           (py_range (0 * 2) (int (length [''a'', ''b'', ''c''])) 2)"
    and all: "(\<forall>n. \<not> add_ok ?w n) \<longrightarrow>
          s = 0 \<and> f = int (length (py_range (0 * 2) (int (length [''a'', ''b'', ''c''])) 2))"
    by (elim exE conjE) (rule that)
  from all fail have "s = 0" "f = 2" unfolding idx by simp_all
  moreover from att have "attempted (since ?w w1) = [(1, [''a'', ''b'']), (2, [''c''])]"
    unfolding idx using sl by simp
  ultimately show ?thesis using run by simp
qed

text \<open>
  C2. With a batch size of at least 1 and \<open>resume_from = k \<ge> 0\<close>, the batches handed
  to the retry routine are those with the indices \<open>k, k + 1, ...\<close> up to the last
  one, in this order, each with its number (its index plus one) and its documents.
  Every call of the store is for one of them, so no batch with an index below \<open>k\<close> is
  submitted; with at least one retry each of them is submitted. With five batches
  and \<open>k = 2\<close> the indices are 2, 3 and 4.
\<close>

theorem insert_chunks_batch_resume:
  assumes "1 \<le> batch_size" and "0 \<le> k"
  shows "\<exists>s f w1. insert_chunks_batch self documents batch_size k w = Inr (s, f, w1)
     \<and> attempted (since w w1) =
         map (\<lambda>j. (int j + 1, take (nat batch_size) (drop (j * nat batch_size) documents)))
           [nat k..<(length documents + nat batch_size - 1) div nat batch_size]
     \<and> map (\<lambda>(n, b). n - 1) (attempted (since w w1)) =
         map int [nat k..<(length documents + nat batch_size - 1) div nat batch_size]
     \<and> set (submitted (since w w1)) \<subseteq> set (attempted (since w w1))
     \<and> (\<forall>(n, b) \<in> set (submitted (since w w1)). k \<le> n - 1)
     \<and> (1 \<le> max_retries self \<longrightarrow> set (submitted (since w w1)) = set (attempted (since w w1)))
     \<and> ((length documents + nat batch_size - 1) div nat batch_size = 5 \<and> k = 2 \<longrightarrow>
          map (\<lambda>(n, b). n - 1) (attempted (since w w1)) = [2, 3, 4])"
proof -
  let ?total = "(length documents + nat batch_size - 1) div nat batch_size"
  let ?b = "\<lambda>j. (int j + 1, take (nat batch_size) (drop (j * nat batch_size) documents))"
  have nz: "batch_size \<noteq> 0" using assms(1) by simp
  from insert_chunks_batch_run[OF nz, of self documents k w]
  obtain s f w1 where
    run: "insert_chunks_batch self documents batch_size k w = Inr (s, f, w1)"
    and att0: "attempted (since w w1) =
         map (\<lambda>i. (i div batch_size + 1, py_slice documents i (i + batch_size)))
           (py_range (k * batch_size) (int (length documents)) batch_size)"
    and sub: "set (submitted (since w w1)) \<subseteq> set (attempted (since w w1))"
    and sup: "1 \<le> max_retries self \<longrightarrow>
                set (attempted (since w w1)) \<subseteq> set (submitted (since w w1))"
    by blast
  have att: "attempted (since w w1) = map ?b [nat k..<?total]"
    unfolding att0 by (rule batches_closed_form[OF assms])
  have idx: "map (\<lambda>(n, b). n - 1) (attempted (since w w1)) = map int [nat k..<?total]"
    unfolding att by (simp add: comp_def)
  have low: "\<forall>(n, b) \<in> set (submitted (since w w1)). k \<le> n - 1"
  proof -
    have "\<forall>(n, b) \<in> set (attempted (since w w1)). k \<le> n - 1"
      unfolding att using assms(2) by auto
    then show ?thesis using sub by blast
  qed
  have eq: "1 \<le> max_retries self \<longrightarrow>
              set (submitted (since w w1)) = set (attempted (since w w1))"
    using sub sup by blast
  have five: "?total = 5 \<and> k = 2 \<longrightarrow>
                map (\<lambda>(n, b). n - 1) (attempted (since w w1)) = [2, 3, 4]"
  proof
    assume "?total = 5 \<and> k = 2"
    then have "[nat k..<?total] = [2, 3, 4]" by (simp add: upt_conv_Cons)
    then show "map (\<lambda>(n, b). n - 1) (attempted (since w w1)) = [2, 3, 4]"
      unfolding idx by simp
  qed
  from run att idx sub low eq five show ?thesis
    by (intro exI[of _ s] exI[of _ f] exI[of _ w1] conjI)
qed

theorem insert_chunks_batch_resume_witness:
  "\<exists>s f w1. insert_chunks_batch (example_inserter 3) [''a'', ''b'', ''c'', ''d'', ''e''] 1 2
               (example_world (always True) Written True None) = Inr (s, f, w1)
     \<and> attempted (since (example_world (always True) Written True None) w1) =
         [(3, [''c'']), (4, [''d'']), (5, [''e''])]
     \<and> submitted (since (example_world (always True) Written True None) w1) =
         [(3, [''c'']), (4, [''d'']), (5, [''e''])]
     \<and> map (\<lambda>(n, b). n - 1) (attempted (since (example_world (always True) Written True None) w1))
         = [2, 3, 4]"
proof -
  let ?w = "example_world (always True) Written True None :: string world"
  let ?docs = "[''a'', ''b'', ''c'', ''d'', ''e'']"
  have one: "(1::int) \<le> 1" and two: "(0::int) \<le> 2" by simp_all
  have total: "(length ?docs + nat 1 - 1) div nat 1 = 5 \<and> (2::int) = 2" by simp
  from insert_chunks_batch_resume[OF one two, where self = "example_inserter 3"
         and documents = ?docs and w = ?w]
  obtain s f w1 where
    run: "insert_chunks_batch (example_inserter 3) ?docs 1 2 ?w = Inr (s, f, w1)"
    and att: "attempted (since ?w w1) =
         map (\<lambda>j. (int j + 1, take (nat 1) (drop (j * nat 1) ?docs)))
           [nat 2..<(length ?docs + nat 1 - 1) div nat 1]"
    and five: "(length ?docs + nat 1 - 1) div nat 1 = 5 \<and> (2::int) = 2 \<longrightarrow>
          map (\<lambda>(n, b). n - 1) (attempted (since ?w w1)) = [2, 3, 4]"
    by (elim exE conjE) (rule that)
  have computed: "insert_chunks_batch (example_inserter 3) ?docs 1 2 ?w =
      Inr (3, 0, ?w\<lparr>add_calls := 3,
            trace := [InsertBatch 3 [''c''], AddDocuments 3 [''c''] True, Sleep (1 / 2),
                      InsertBatch 4 [''d''], AddDocuments 4 [''d''] True, Sleep (1 / 2),
                      InsertBatch 5 [''e''], AddDocuments 5 [''e''] True, Sleep (1 / 2)]\<rparr>)"
    by (simp add: insert_chunks_batch_def py_range_def range_len_def upt_conv_Cons
          batch_body_def py_slice_def slice_bound_def insert_batch_with_retry_def
          add_documents_def emit_def sleep_def example_inserter_def example_world_def
          always_def Let_def)
  have sub: "submitted (since ?w w1) = [(3, [''c'']), (4, [''d'']), (5, [''e''])]"
    using run unfolding computed by (auto simp: since_def submitted_def example_world_def)
  have "attempted (since ?w w1) = [(3, [''c'']), (4, [''d'']), (5, [''e''])]"
    unfolding att by (simp add: upt_conv_Cons)
  moreover from five total
  have "map (\<lambda>(n, b). n - 1) (attempted (since ?w w1)) = [2, 3, 4]" by (rule mp)
  ultimately show ?thesis using run sub
    by (intro exI[of _ s] exI[of _ f] exI[of _ w1] conjI)
qed

lemma batches_cover:
  fixes b n :: nat
  assumes "0 < b"
  shows "n \<le> ((n + b - 1) div b) * b"
proof -
  define q where "q = (n + b - 1) div b"
  define r where "r = (n + b - 1) mod b"
  have "q * b + r = n + b - 1" unfolding q_def r_def by simp
  moreover have "r < b" unfolding r_def using assms by simp
  ultimately have "n \<le> q * b" by arith
  then show ?thesis by (simp add: q_def)
qed

lemma batches_below:
  fixes b n :: nat
  assumes "0 < b" and "j < (n + b - 1) div b"
  shows "j * b < n"
proof -
  define q where "q = (n + b - 1) div b"
  define r where "r = (n + b - 1) mod b"
  have qr: "q * b + r = n + b - 1" unfolding q_def r_def by simp
  have "j + 1 \<le> q" using assms(2) by (simp add: q_def)
  then have "(j + 1) * b \<le> q * b" by (rule mult_le_mono1)
  then have "j * b + b \<le> q * b" by (simp add: algebra_simps)
  with qr show ?thesis using assms(1) by arith
qed

lemma batch_full:
  fixes b n :: nat
  assumes "0 < b" and "j + 1 < (n + b - 1) div b"
  shows "(j + 1) * b \<le> n"
  using batches_below[OF assms] by simp

lemma batch_last:
  fixes b n :: nat
  assumes "0 < b" and "j + 1 = (n + b - 1) div b"
  shows "n - j * b = (if n mod b = 0 then b else n mod b)"
proof -
  have lo: "j * b < n" using batches_below[OF assms(1), of j n] assms(2) by simp
  have hi: "n \<le> (j + 1) * b" using batches_cover[OF assms(1), of n] assms(2) by simp
  show ?thesis
  proof (cases "n = (j + 1) * b")
    case True
    then show ?thesis by simp
  next
    case False
    with hi have lt: "n < (j + 1) * b" by simp
    define x where "x = n - j * b"
    have n: "n = j * b + x" using lo by (simp add: x_def)
    have x: "x < b" "0 < x" using lt lo by (simp_all add: x_def algebra_simps)
    have "n mod b = x" unfolding n using x(1) by simp
    then show ?thesis using x(2) by (simp add: x_def)
  qed
qed

lemma concat_batches:
  "concat (map (\<lambda>j. take b (drop (j * b) xs)) [0..<m]) = take (m * b) xs"
proof (induction m)
  case 0
  show ?case by simp
next
  case (Suc m)
  have "take (m * b) xs @ take b (drop (m * b) xs) = take (m * b + b) xs"
    by (simp add: take_add)
  with Suc show ?case by (simp add: add.commute)
qed

lemma ceiling_batches:
  fixes b n :: nat
  assumes "0 < b"
  shows "\<lceil>real n / real b\<rceil> = int ((n + b - 1) div b)"
proof (cases "(n + b - 1) div b")
  case 0
  with batches_cover[OF assms, of n] have "n = 0" by simp
  with 0 show ?thesis by simp
next
  case (Suc j)
  then have j: "j < (n + b - 1) div b" by simp
  have lo: "j * b < n" by (rule batches_below[OF assms j])
  have hi: "n \<le> Suc j * b" using batches_cover[OF assms, of n] Suc by simp
  have rb: "0 < real b" using assms by simp
  have "real (j * b) < real n" using lo by (simp only: of_nat_less_iff)
  then have "real j < real n / real b" using rb by (simp add: pos_less_divide_eq)
  moreover have "real n \<le> real (Suc j * b)" using hi by (simp only: of_nat_le_iff)
  then have "real n / real b \<le> real (Suc j)"
    using rb by (simp add: pos_divide_le_eq algebra_simps)
  ultimately have "\<lceil>real n / real b\<rceil> = int (Suc j)"
    by (intro ceiling_unique) simp_all
  with Suc show ?thesis by simp
qed

text \<open>
  C1. With a batch size \<open>B\<close> of at least 1 and \<open>resume_from = 0\<close>, the \<open>N\<close> documents
  are handed over in \<open>ceil(N / B)\<close> batches numbered 1, 2, ... in this order; the
  batches are consecutive pieces of the list that together make up the list, every
  batch but the last has \<open>B\<close> documents, and the last has the \<open>N mod B\<close> that remain (or
  \<open>B\<close> when nothing remains). With no documents nothing happens at all: the world,
  its checkpoint file included, is as before.
\<close>

theorem insert_chunks_batch_partition:
  assumes "1 \<le> batch_size"
  shows "\<exists>s f w1. insert_chunks_batch self documents batch_size 0 w = Inr (s, f, w1)
     \<and> attempted (since w w1) =
         map (\<lambda>j. (int j + 1, take (nat batch_size) (drop (j * nat batch_size) documents)))
           [0..<(length documents + nat batch_size - 1) div nat batch_size]
     \<and> int (length (attempted (since w w1))) = \<lceil>real (length documents) / real_of_int batch_size\<rceil>
     \<and> concat (map snd (attempted (since w w1))) = documents
     \<and> (\<forall>j<length (attempted (since w w1)).
           length (snd (attempted (since w w1) ! j)) =
             (if j + 1 < length (attempted (since w w1)) \<or> length documents mod nat batch_size = 0
              then nat batch_size else length documents mod nat batch_size))
     \<and> (documents = [] \<longrightarrow> w1 = w \<and> s = 0 \<and> f = 0)"
proof -
  define b where "b = nat batch_size"
  define n where "n = length documents"
  define total where "total = (n + b - 1) div b"
  have b: "0 < b" and B: "batch_size = int b" using assms by (simp_all add: b_def)
  let ?batch = "\<lambda>j. (int j + 1, take b (drop (j * b) documents))"
  have zero: "(0::int) \<le> 0" by simp
  have nz: "batch_size \<noteq> 0" using assms by simp
  from insert_chunks_batch_run[OF nz, of self documents 0 w]
  obtain s f w1 where
    run: "insert_chunks_batch self documents batch_size 0 w = Inr (s, f, w1)"
    and att0: "attempted (since w w1) =
         map (\<lambda>i. (i div batch_size + 1, py_slice documents i (i + batch_size)))
           (py_range (0 * batch_size) (int (length documents)) batch_size)"
    by blast
  have att: "attempted (since w w1) = map ?batch [0..<total]"
    unfolding att0 b_def n_def total_def
    using batches_closed_form[OF assms zero, of documents] by simp
  have len: "length (attempted (since w w1)) = total" unfolding att by simp
  have ceil: "int (length (attempted (since w w1))) =
                \<lceil>real (length documents) / real_of_int batch_size\<rceil>"
    unfolding len total_def n_def B using ceiling_batches[OF b, of "length documents"] by simp
  have "concat (map snd (attempted (since w w1))) = take (total * b) documents"
    unfolding att using concat_batches[of b documents total] by (simp add: comp_def)
  moreover have "n \<le> total * b" unfolding total_def by (rule batches_cover[OF b])
  ultimately have cat: "concat (map snd (attempted (since w w1))) = documents"
    by (simp add: n_def)
  have sizes: "\<forall>j<length (attempted (since w w1)).
           length (snd (attempted (since w w1) ! j)) =
             (if j + 1 < length (attempted (since w w1)) \<or> n mod b = 0 then b else n mod b)"
  proof (intro allI impI)
    fix j assume "j < length (attempted (since w w1))"
    then have j: "j < total" by (simp add: len)
    then have nth: "snd (attempted (since w w1) ! j) = take b (drop (j * b) documents)"
      unfolding att by simp
    have size: "length (take b (drop (j * b) documents)) = min b (n - j * b)"
      by (simp add: n_def min.commute)
    show "length (snd (attempted (since w w1) ! j)) =
             (if j + 1 < length (attempted (since w w1)) \<or> n mod b = 0 then b else n mod b)"
    proof (cases "j + 1 < total")
      case True
      then have "(j + 1) * b \<le> n" unfolding total_def by (rule batch_full[OF b])
      then have "b \<le> n - j * b" by (simp add: algebra_simps)
      then show ?thesis unfolding nth size len using True by simp
    next
      case False
      with j have "j + 1 = (n + b - 1) div b" by (simp add: total_def)
      from batch_last[OF b this] have last: "n - j * b = (if n mod b = 0 then b else n mod b)" .
      have "n mod b < b" using b by simp
      then show ?thesis unfolding nth size len last using False by (simp add: min_def)
    qed
  qed
  have empty: "documents = [] \<longrightarrow> w1 = w \<and> s = 0 \<and> f = 0"
  proof
    assume "documents = []"
    then have "insert_chunks_batch self documents batch_size 0 w = Inr (0, 0, w)"
      using assms by (simp add: insert_chunks_batch_def py_range_def range_len_def)
    with run show "w1 = w \<and> s = 0 \<and> f = 0" by simp
  qed
  from run att ceil cat sizes empty show ?thesis
    unfolding b_def n_def total_def
    by (intro exI[of _ s] exI[of _ f] exI[of _ w1] conjI)
qed

theorem insert_chunks_batch_partition_witness:
  "\<exists>s f w1. insert_chunks_batch (example_inserter 3) [0..<57] 25 0
               (example_world from_third Written True None) = Inr (s, f, w1)
     \<and> attempted (since (example_world from_third Written True None) w1) =
         [(1, [0..<25]), (2, [25..<50]), (3, [50..<57])]
     \<and> map length (map snd (attempted (since (example_world from_third Written True None) w1))) =
         [25, 25, 7]"
proof -
  let ?w = "example_world from_third Written True None :: nat world"
  have one: "(1::int) \<le> 25" by simp
  from insert_chunks_batch_partition[OF one, where self = "example_inserter 3"
         and documents = "[0..<57]" and w = ?w]
  obtain s f w1 where
    run: "insert_chunks_batch (example_inserter 3) [0..<57] 25 0 ?w = Inr (s, f, w1)"
    and att: "attempted (since ?w w1) =
         map (\<lambda>j. (int j + 1, take (nat 25) (drop (j * nat 25) [0..<57])))
           [0..<(length [0..<57] + nat 25 - 1) div nat 25]"
    by (elim exE conjE) (rule that)
  have "[0..<(length [0..<57] + nat 25 - 1) div nat 25] = [0, 1, 2]"
    by (simp add: upt_conv_Cons)
  then have a: "attempted (since ?w w1) = [(1, [0..<25]), (2, [25..<50]), (3, [50..<57])]"
    unfolding att by (simp add: take_upt del: upt_Suc)
  then have "map length (map snd (attempted (since ?w w1))) = [25, 25, 7]"
    by (simp del: upt_Suc)
  with run a show ?thesis
    by (intro exI[of _ s] exI[of _ f] exI[of _ w1] conjI)
qed

subsection \<open>Checkpoints\<close>




subsection \<open>The whole run\<close>








end
